theory Spec2Isabelle
  imports Complex_Main "HOL-Library.List_Lexorder" "HOL-Library.Multiset"
begin

section \<open>Values, exceptions and list primitives of the source language\<close>

text \<open>
  The plotter is a Python 2 script (\<^verbatim>\<open>src/extras/plotter/plot_builder.py\<close>).
  A Python integer is a \<^typ>\<open>nat\<close> or an \<^typ>\<open>int\<close>, and \<^verbatim>\<open>/\<close> between integers is floor
  division.  The entries of a table are finite floats and are kept as the
  \<^typ>\<open>real\<close> numbers they denote; what the script computes from them is a float in
  the sense of the section on floating-point numbers below: rounded, and possibly
  an infinity or a NaN.  A raised exception is the left summand of a result of type
  \<open>exn + 'a\<close>; \<^verbatim>\<open>exit(1)\<close> after the fatal header report is \<open>SystemExit\<close>, carrying
  what was printed on the error stream.
\<close>

datatype fatal =
  HeadersDiffer string string "string set" "string set" "string list" "string list"

datatype exn =
  IndexError | ValueError | ZeroDivisionError | OverflowError | AssertionError | TypeError
  | IOError | SystemExit fatal

definition ebind :: "exn + 'a \<Rightarrow> ('a \<Rightarrow> exn + 'b) \<Rightarrow> exn + 'b" where
  "ebind m f = (case m of Inl e \<Rightarrow> Inl e | Inr x \<Rightarrow> f x)"

text \<open>A list comprehension whose element expression may raise: the first exception wins.\<close>

fun mapM :: "('a \<Rightarrow> exn + 'b) \<Rightarrow> 'a list \<Rightarrow> exn + 'b list" where
  "mapM f [] = Inr []"
| "mapM f (x # xs) = ebind (f x) (\<lambda>y. ebind (mapM f xs) (\<lambda>ys. Inr (y # ys)))"

text \<open>Indexing \<^verbatim>\<open>xs[i]\<close>: a negative index counts from the end, out of range raises.\<close>

definition pyget :: "'a list \<Rightarrow> int \<Rightarrow> exn + 'a" where
  "pyget xs i =
     (if 0 \<le> i \<and> i < int (length xs) then Inr (xs ! nat i)
      else if i < 0 \<and> - int (length xs) \<le> i then Inr (xs ! nat (int (length xs) + i))
      else Inl IndexError)"

text \<open>The slice \<^verbatim>\<open>xs[a:b]\<close> for non-negative bounds.\<close>

definition slice :: "'a list \<Rightarrow> nat \<Rightarrow> nat \<Rightarrow> 'a list" where
  "slice xs a b = take (b - a) (drop a xs)"

text \<open>
  \<^verbatim>\<open>bisect.bisect_left(a, x)\<close> on a sorted list \<open>a\<close> is the insertion point of \<open>x\<close>:
  the number of leading elements strictly below \<open>x\<close>.  Both calls of the source pass a
  sorted list.  The comparison is a parameter because one of the probes is the row
  \<^verbatim>\<open>[x, float('-inf')]\<close>, which is not a list of reals.
\<close>

definition bisect_left_by :: "('a \<Rightarrow> bool) \<Rightarrow> 'a list \<Rightarrow> nat" where
  "bisect_left_by below a = length (takeWhile below a)"

definition bisect_left :: "nat list \<Rightarrow> nat \<Rightarrow> nat" where
  "bisect_left a x = bisect_left_by (\<lambda>y. y < x) a"

text \<open>
  \<open>row_below r x\<close> is the list comparison \<^verbatim>\<open>r < [x, float('-inf')]\<close> for a row of finite
  numbers: decided by the first entry, and a row that is a proper prefix is smaller.
\<close>

definition row_below :: "real list \<Rightarrow> real \<Rightarrow> bool" where
  "row_below r x = (case r of [] \<Rightarrow> True | a # rest \<Rightarrow> a < x \<or> (a = x \<and> rest = []))"

section \<open>Floating-point numbers\<close>

text \<open>
  A Python float is an IEEE 754 binary64 number.  The finite floats are the reals
  \<open>m * 2\<^sup>e\<close> with \<open>\<bar>m\<bar> < 2\<^sup>5\<^sup>3\<close> and \<open>- 1074 \<le> e \<le> 971\<close>; \<open>tiny\<close> is the least positive
  one and \<open>huge = 2\<^sup>1\<^sup>0\<^sup>2\<^sup>4\<close> the first power of two beyond them.  The \<open>grid\<close> is the
  set of finite floats together with \<open>huge\<close> and \<open>- huge\<close>, which stand for a rounding that
  leaves the finite range.  \<open>rnd x\<close> is the member of the grid nearest to \<open>x\<close>, the one
  with the even significand when \<open>x\<close> is half-way between two neighbours, and \<open>fin x\<close>
  is the float delivered for an exact result \<open>x\<close>: an infinity when the rounding
  reaches \<open>huge\<close>.  The two zeros are not distinguished (the script never looks at the
  sign of a zero).
\<close>

datatype fval = Fin real | PInf | NInf | NaN

definition tiny :: real where
  "tiny = 1 / 2 ^ 1074"

definition huge :: real where
  "huge = 2 ^ 1024"

definition grid :: "real set" where
  "grid = {x. \<exists>m k. x = real_of_int m * 2 ^ k * tiny \<and> \<bar>m\<bar> \<le> 2 ^ 53 \<and> k \<le> 2045}"

definition is_double :: "real \<Rightarrow> bool" where
  "is_double x = (x \<in> grid \<and> \<bar>x\<bar> < huge)"

definition even_grid :: "real \<Rightarrow> bool" where
  "even_grid x = (\<exists>m k. x = real_of_int m * 2 ^ k * tiny \<and> \<bar>m\<bar> \<le> 2 ^ 53 \<and> k \<le> 2045 \<and>
                    even m \<and> (k = 0 \<or> 2 ^ 52 \<le> \<bar>m\<bar>))"

definition dn :: "real \<Rightarrow> real" where
  "dn x = Max {f \<in> grid. f \<le> x}"

definition up :: "real \<Rightarrow> real" where
  "up x = Min {f \<in> grid. x \<le> f}"

definition rnd :: "real \<Rightarrow> real" where
  "rnd x = (if x - dn x < up x - x then dn x
            else if up x - x < x - dn x then up x
            else if even_grid (dn x) then dn x else up x)"

definition fin :: "real \<Rightarrow> fval" where
  "fin x = (if huge \<le> x then PInf
            else if x \<le> - huge then NInf
            else (let r = rnd x in
                  if r = huge then PInf else if r = - huge then NInf else Fin r))"

text \<open>
  The operations of the script on floats.  \<^verbatim>\<open>+\<close>, \<^verbatim>\<open>-\<close>, \<^verbatim>\<open>*\<close> never raise: they
  overflow to an infinity and give NaN where IEEE 754 does.  \<^verbatim>\<open>/\<close> raises
  \<open>ZeroDivisionError\<close> on a zero divisor (\<open>fquot\<close> is the quotient otherwise),
  \<^verbatim>\<open>x ** 2\<close> raises \<open>OverflowError\<close> when the square of a finite \<open>x\<close> overflows, and
  \<^verbatim>\<open>math.sqrt\<close> raises \<open>ValueError\<close> below zero.  A comparison with a NaN is false.
  \<^verbatim>\<open>max(a, b)\<close> is \<open>b\<close> if \<open>b > a\<close> and \<open>a\<close> otherwise.  \<^verbatim>\<open>int(x)\<close> truncates towards
  zero and raises on an infinity or a NaN.
\<close>

fun fneg :: "fval \<Rightarrow> fval" where
  "fneg (Fin x) = Fin (- x)"
| "fneg PInf = NInf"
| "fneg NInf = PInf"
| "fneg NaN = NaN"

fun fabs :: "fval \<Rightarrow> fval" where
  "fabs (Fin x) = Fin \<bar>x\<bar>"
| "fabs NaN = NaN"
| "fabs a = PInf"

fun fadd :: "fval \<Rightarrow> fval \<Rightarrow> fval" where
  "fadd (Fin x) (Fin y) = fin (x + y)"
| "fadd NaN b = NaN"
| "fadd a NaN = NaN"
| "fadd PInf NInf = NaN"
| "fadd NInf PInf = NaN"
| "fadd PInf b = PInf"
| "fadd NInf b = NInf"
| "fadd a b = b"

definition fsub :: "fval \<Rightarrow> fval \<Rightarrow> fval" where
  "fsub a b = fadd a (fneg b)"

fun fmul :: "fval \<Rightarrow> fval \<Rightarrow> fval" where
  "fmul (Fin x) (Fin y) = fin (x * y)"
| "fmul NaN b = NaN"
| "fmul a NaN = NaN"
| "fmul (Fin x) b = (if x = 0 then NaN else if (0 < x) = (b = PInf) then PInf else NInf)"
| "fmul a (Fin y) = (if y = 0 then NaN else if (0 < y) = (a = PInf) then PInf else NInf)"
| "fmul a b = (if a = b then PInf else NInf)"

fun fquot :: "fval \<Rightarrow> fval \<Rightarrow> fval" where
  "fquot (Fin x) (Fin y) = fin (x / y)"
| "fquot NaN b = NaN"
| "fquot a NaN = NaN"
| "fquot (Fin x) b = Fin 0"
| "fquot a (Fin y) = (if (0 < y) = (a = PInf) then PInf else NInf)"
| "fquot a b = NaN"

definition fdiv :: "fval \<Rightarrow> fval \<Rightarrow> exn + fval" where
  "fdiv a b = (if b = Fin 0 then Inl ZeroDivisionError else Inr (fquot a b))"

fun pow2 :: "fval \<Rightarrow> exn + fval" where
  "pow2 (Fin x) = (case fin (x * x) of Fin r \<Rightarrow> Inr (Fin r) | _ \<Rightarrow> Inl OverflowError)"
| "pow2 NaN = Inr NaN"
| "pow2 a = Inr PInf"

fun fsqrt :: "fval \<Rightarrow> exn + fval" where
  "fsqrt (Fin x) = (if x < 0 then Inl ValueError else Inr (fin (sqrt x)))"
| "fsqrt PInf = Inr PInf"
| "fsqrt NInf = Inl ValueError"
| "fsqrt NaN = Inr NaN"

fun flt :: "fval \<Rightarrow> fval \<Rightarrow> bool" where
  "flt (Fin x) (Fin y) = (x < y)"
| "flt NaN b = False"
| "flt a NaN = False"
| "flt a PInf = (a \<noteq> PInf)"
| "flt NInf b = (b \<noteq> NInf)"
| "flt a b = False"

fun fle :: "fval \<Rightarrow> fval \<Rightarrow> bool" where
  "fle (Fin x) (Fin y) = (x \<le> y)"
| "fle NaN b = False"
| "fle a NaN = False"
| "fle a PInf = True"
| "fle NInf b = True"
| "fle a b = False"

definition pymax :: "fval \<Rightarrow> fval \<Rightarrow> fval" where
  "pymax a b = (if flt a b then b else a)"

fun py_int :: "fval \<Rightarrow> exn + int" where
  "py_int (Fin x) = Inr (if 0 \<le> x then \<lfloor>x\<rfloor> else \<lceil>x\<rceil>)"
| "py_int NaN = Inl ValueError"
| "py_int a = Inl OverflowError"

text \<open>
  The float literals \<^verbatim>\<open>1e-4\<close> and \<^verbatim>\<open>0.01\<close> are the floats nearest to the decimal
  fractions, not the fractions themselves; \<^verbatim>\<open>2e2\<close> and \<^verbatim>\<open>0.5\<close> are exact.
\<close>

definition lit_1e_4 :: real where
  "lit_1e_4 = 7378697629483821 / 2 ^ 66"
section \<open>Process-wide state\<close>

text \<open>
  A table (class \<^verbatim>\<open>DB\<close>) is an object: \<^verbatim>\<open>split\<close> and \<^verbatim>\<open>filter\<close> may return the very
  object they were called on, and \<^verbatim>\<open>bucketize\<close> sorts its rows in place.  Objects live
  in a heap, a list indexed by address; the two diagnostic accumulators \<^verbatim>\<open>g_err\<close> and
  \<^verbatim>\<open>g_nans\<close> are global two-element lists.  The caption \<^verbatim>\<open>cap\<close> of a table is
  not modelled (it is only printed).
\<close>

record DB =
  hdr :: "string list"
  data :: "real list list"
  refile :: "string option"

record state =
  g_err :: "fval \<times> nat"
  g_nans :: "nat \<times> nat"
  heap :: "DB list"

text \<open>The state at program start: \<^verbatim>\<open>g_err = [0,0]\<close>, \<^verbatim>\<open>g_nans = [0,0]\<close>, no table yet.\<close>

definition state0 :: state where
  "state0 = \<lparr>g_err = (Fin 0, 0), g_nans = (0, 0), heap = []\<rparr>"

definition BUCKETS :: nat where
  "BUCKETS = 50"

definition EPSILON :: real where
  "EPSILON = 1 / 100"

section \<open>Numeric helpers\<close>

text \<open>
  \<^verbatim>\<open>avg(l)\<close> is \<^verbatim>\<open>sum(l)/float(len(l))\<close>: the sum is formed from left to right,
  starting from \<open>0\<close>, and the division raises on the empty list.
\<close>

definition avg :: "fval list \<Rightarrow> exn + fval" where
  "avg l = fdiv (foldl fadd (Fin 0) l) (fin (real (length l)))"

text \<open>
  \<^verbatim>\<open>error(l, El2)\<close> returns at once when \<open>El2\<close> compares equal to zero; otherwise it
  squares every entry, and adds to the two components of \<^verbatim>\<open>g_err\<close>.
\<close>

definition error :: "state \<Rightarrow> real list \<Rightarrow> fval \<Rightarrow> exn + state" where
  "error s l El2 =
     (if El2 = Fin 0 then Inr s
      else
        ebind (mapM pow2 (map Fin l)) (\<lambda>sq.
        ebind (avg sq) (\<lambda>Vl.
        ebind (fdiv Vl El2) (\<lambda>r.
        ebind (fsqrt (pymax (fsub r (Fin 1)) (Fin 0))) (\<lambda>d.
          Inr (s\<lparr>g_err := (fadd (fst (g_err s)) d, snd (g_err s) + 1)\<rparr>))))))"

text \<open>
  The second argument of \<^verbatim>\<open>qnt\<close> is the string \<^verbatim>\<open>'m'\<close> or a fraction.  The call
  \<^verbatim>\<open>error(l, El**2)\<close> comes before every \<^verbatim>\<open>return\<close>.
\<close>

datatype quantile = Mean | Quantile real

definition qnt :: "state \<Rightarrow> real list \<Rightarrow> quantile \<Rightarrow> exn + (fval \<times> state)" where
  "qnt s l q =
     ebind (avg (map Fin l)) (\<lambda>El.
     ebind (pow2 El) (\<lambda>El2.
     ebind (error s l El2) (\<lambda>s'.
       case q of
         Mean \<Rightarrow> Inr (El, s')
       | Quantile q \<Rightarrow>
          (let l' = sort l; n = fin (real (length l')); nq = fmul n (Fin q) in
           if fle nq (Fin (1 / 2)) then ebind (pyget l' 0) (\<lambda>v. Inr (Fin v, s'))
           else if fle (fsub n (Fin (1 / 2))) nq
           then ebind (pyget l' (- 1)) (\<lambda>v. Inr (Fin v, s'))
           else
             ebind (py_int (fsub nq (Fin (1 / 2)))) (\<lambda>i.
             (let f = fsub (fsub nq (Fin (1 / 2))) (fin (real_of_int i)) in
              ebind (pyget l' i) (\<lambda>a.
              ebind (pyget l' (i + 1)) (\<lambda>b.
                Inr (fadd (fmul (Fin a) (fsub (Fin 1) f)) (fmul (Fin b) f), s')))))))))"

text \<open>\<^verbatim>\<open>abs(x-y) > max(1e-4, (x+y)/2e2)\<close>; the divisor is the non-zero literal.\<close>

definition farenough :: "real \<Rightarrow> real \<Rightarrow> bool" where
  "farenough x y =
     flt (pymax (Fin lit_1e_4) (fquot (fadd (Fin x) (Fin y)) (Fin 200)))
         (fabs (fsub (Fin x) (Fin y)))"

section \<open>Bucketize: coalescing near-duplicate x-values\<close>

text \<open>
  \<^verbatim>\<open>tmp = ix[:1]\<close>, then \<^verbatim>\<open>for x in ix[1:]: if farenough(x, tmp[-1]): tmp.append(x)\<close>.
\<close>

fun coalesce_loop :: "real list \<Rightarrow> real list \<Rightarrow> exn + real list" where
  "coalesce_loop tmp [] = Inr tmp"
| "coalesce_loop tmp (x # xs) =
     ebind (pyget tmp (- 1)) (\<lambda>t.
       coalesce_loop (if farenough x t then tmp @ [x] else tmp) xs)"

definition coalesce :: "real list \<Rightarrow> exn + real list" where
  "coalesce ix = coalesce_loop (take 1 ix) (drop 1 ix)"

text \<open>
  The boundary positions: \<^verbatim>\<open>ix = [bisect_left(self.data, [x, float('-inf')]) for x in tmp]\<close>,
  taken as they are when there are fewer than \<open>2 * BUCKETS\<close> of them, and otherwise
  snapped from \<open>BUCKETS - 1\<close> targets evenly spaced by row count.  \<open>B\<close> is the value of
  the global \<^verbatim>\<open>BUCKETS\<close> (50 unless the command line gives another positive number).
  Unpacking \<^verbatim>\<open>il, ir = ix[i-1:i+1]\<close> raises \<open>ValueError\<close> when the slice is short.
\<close>

fun snap_loop :: "nat \<Rightarrow> nat \<Rightarrow> nat list \<Rightarrow> nat list \<Rightarrow> nat list \<Rightarrow> exn + nat list" where
  "snap_loop B n ix l [] = Inr l"
| "snap_loop B n ix l (i # rest) =
     (let idx = i * n div B; j = max (bisect_left ix idx) 1 in
      case slice ix (j - 1) (j + 1) of
        [il, ir] \<Rightarrow>
          ebind (pyget l (- 1)) (\<lambda>lst.
            if \<not> ir > lst then Inl AssertionError
            else snap_loop B n ix
                   (l @ [if il > lst \<and> int idx - int il \<le> int ir - int idx then il else ir])
                   rest)
      | _ \<Rightarrow> Inl ValueError)"

text \<open>
  The loop \<^verbatim>\<open>for i in xrange(len(l)-1)\<close> over consecutive boundaries \<open>l[i]\<close>, \<open>l[i+1]\<close>:
  the x of a point is the mean of the slice's first column, its y the aggregator on
  the second column.  A point \<^verbatim>\<open>[x, y]\<close> is a pair.
\<close>

fun points_loop ::
  "state \<Rightarrow> real list list \<Rightarrow> quantile \<Rightarrow> nat list \<Rightarrow> exn + ((fval \<times> fval) list \<times> state)" where
  "points_loop s rows aggr (a # b # l) =
     (let xy = slice rows a b in
      ebind (mapM (\<lambda>r. pyget r 0) xy) (\<lambda>xs.
      ebind (qnt s xs Mean) (\<lambda>(x, s1).
      ebind (mapM (\<lambda>r. pyget r 1) xy) (\<lambda>ys.
      ebind (qnt s1 ys aggr) (\<lambda>(y, s2).
      ebind (points_loop s2 rows aggr (b # l)) (\<lambda>(res, s3).
        Inr ((x, y) # res, s3)))))))"
| "points_loop s rows aggr l = Inr ([], s)"

definition boundaries :: "nat \<Rightarrow> real list list \<Rightarrow> exn + nat list" where
  "boundaries B rows =
     ebind (mapM (\<lambda>r. pyget r 0) rows) (\<lambda>xs.
     ebind (coalesce (sort (remdups xs))) (\<lambda>tmp.
     (let ix = map (\<lambda>x. bisect_left_by (\<lambda>r. row_below r x) rows) tmp in
      ebind (if length ix < 2 * B then Inr ix
             else snap_loop B (length rows) ix [0] [1..<B]) (\<lambda>l.
        Inr (l @ [length rows])))))"

definition bucketize ::
  "nat \<Rightarrow> state \<Rightarrow> nat \<Rightarrow> quantile \<Rightarrow> exn + ((fval \<times> fval) list \<times> state)" where
  "bucketize B s self aggr =
     (let db = heap s ! self in
      if length (hdr db) \<noteq> 2 then Inl AssertionError
      else
        (let rows = sort (data db);
             s1 = s\<lparr>heap := (heap s)[self := db\<lparr>data := rows\<rparr>]\<rparr> in
         ebind (boundaries B rows) (\<lambda>l. points_loop s1 rows aggr l)))"

section \<open>Strings and files\<close>

text \<open>
  What the script takes from outside: the regular-expression rewriting \<^verbatim>\<open>prettify\<close>
  of a column name, the parser \<^verbatim>\<open>float\<close> of a numeral (\<open>None\<close> where it raises
  \<open>ValueError\<close>) and the file system (\<open>None\<close> where \<^verbatim>\<open>open\<close> raises), a file being
  the list of its lines as \<^verbatim>\<open>readlines\<close> returns them.  Every result below holds for
  all three.
\<close>

record env =
  prettify :: "string \<Rightarrow> string"
  pyfloat :: "string \<Rightarrow> real option"
  fs :: "string \<Rightarrow> string list option"

definition float :: "env \<Rightarrow> string \<Rightarrow> exn + real" where
  "float e t = (case pyfloat e t of None \<Rightarrow> Inl ValueError | Some x \<Rightarrow> Inr x)"

definition is_space :: "char \<Rightarrow> bool" where
  "is_space c = (c \<in> {CHR '' '', CHR 0x09, CHR 0x0A, CHR 0x0B, CHR 0x0C, CHR 0x0D})"

definition strip :: "string \<Rightarrow> string" where
  "strip t = rev (dropWhile is_space (rev (dropWhile is_space t)))"

definition ends_with :: "string \<Rightarrow> string \<Rightarrow> bool" where
  "ends_with suf t = (length suf \<le> length t \<and> drop (length t - length suf) t = suf)"

text \<open>\<^verbatim>\<open>t.split(sep)\<close> for a non-empty separator: cut at each occurrence, left to right.\<close>

function str_split_aux :: "string \<Rightarrow> string \<Rightarrow> string \<Rightarrow> string list" where
  "str_split_aux sep acc [] = [rev acc]"
| "str_split_aux sep acc (c # cs) =
     (if take (length sep) (c # cs) = sep
      then rev acc # str_split_aux sep [] (drop (length sep - 1) cs)
      else str_split_aux sep (c # acc) cs)"
  by pat_completeness auto
termination
  by (relation "measure (\<lambda>(sep, acc, t). length t)") auto

definition str_split :: "string \<Rightarrow> string \<Rightarrow> string list" where
  "str_split sep t = str_split_aux sep [] t"

text \<open>\<^verbatim>\<open>re.search('\.txt$', t)\<close>: the dollar also matches before a final newline.\<close>

definition is_txt :: "string \<Rightarrow> bool" where
  "is_txt t = (ends_with ''.txt'' t \<or> ends_with (''.txt'' @ [CHR 0x0A]) t)"

text \<open>\<^verbatim>\<open>xs.index(v)\<close>: the first position of \<open>v\<close>, \<open>ValueError\<close> when there is none.\<close>

fun list_index :: "'a list \<Rightarrow> 'a \<Rightarrow> exn + nat" where
  "list_index [] v = Inl ValueError"
| "list_index (x # xs) v =
     (if x = v then Inr 0 else ebind (list_index xs v) (\<lambda>i. Inr (Suc i)))"

section \<open>Reading a file into a table\<close>

text \<open>
  The inner loop \<^verbatim>\<open>for d in xrange(devnum)\<close> of \<^verbatim>\<open>read\<close>: one table row per device
  slot.  \<open>kind\<close> and \<open>index\<close> are read at positions below \<open>ctot\<close>, which are in range by
  construction; the data line is the list that can be too short.
\<close>

fun expand ::
  "real list \<Rightarrow> nat list \<Rightarrow> int list \<Rightarrow> nat \<Rightarrow> real list \<Rightarrow> nat list \<Rightarrow> DB \<Rightarrow> exn + DB" where
  "expand vals kind index n dat [] self = Inr self"
| "expand vals kind index n dat (d # ds) self =
     ebind (mapM (\<lambda>i. pyget dat (index ! i + int d * int (kind ! i))) [0..<length kind])
       (\<lambda>cols.
         (let t = vals @ cols @ (if sum_list kind \<noteq> 0 then [real d] else []) in
          if length t \<noteq> n then Inl AssertionError
          else expand vals kind index n dat ds (self\<lparr>data := data self @ [t]\<rparr>)))"

text \<open>
  The pieces of \<^verbatim>\<open>read\<close>, in the order of the source.  \<open>param_line\<close> is the parsing
  of \<^verbatim>\<open>rows[3]\<close> into parameter names and values, \<open>column_line\<close> the names in
  \<^verbatim>\<open>rows[6]\<close>, \<open>kinds\<close> the per-device flags, \<open>devicecount\<close> the number \<^verbatim>\<open>devnum\<close>
  (integer floor division), \<open>build_index\<close> the offsets, \<open>check_header\<close> the header
  consistency block and \<open>data_line\<close> the floats of a data line.
\<close>

definition param_line :: "env \<Rightarrow> string \<Rightarrow> exn + (string list \<times> real list)" where
  "param_line e row3 =
     (let vars0 = strip (drop 1 row3);
          vars1 = (if length vars0 \<noteq> 0 then str_split '', '' vars0 else []);
          vars2 = map (str_split '' = '') vars1
      in
      ebind (mapM (\<lambda>v. pyget v 0) vars2) (\<lambda>vars.
      ebind (mapM (\<lambda>v. ebind (pyget v 1) (\<lambda>b.
                     if b = ''false'' then Inr 0
                     else if b = ''true'' then Inr 1
                     else float e b)) vars2) (\<lambda>vals.
        Inr (vars, vals))))"

definition column_line :: "string \<Rightarrow> string list" where
  "column_line row6 = str_split '' '' (strip (drop 1 row6))"

definition kinds :: "string list \<Rightarrow> nat list" where
  "kinds hdr0 = map (\<lambda>h. if ends_with ''@every_node'' h then 1 else 0) hdr0"

definition devicecount :: "nat list \<Rightarrow> string \<Rightarrow> int" where
  "devicecount kind row7 =
     (let ctot = length kind; cdev = sum_list kind; cagg = ctot - cdev in
      if cdev = 0 then 1
      else (int (length (str_split '' '' (strip row7))) - int cagg) div int cdev)"

definition build_index :: "int \<Rightarrow> nat list \<Rightarrow> int list" where
  "build_index devnum kind =
     foldl (\<lambda>index c. index @ [last index + (if c \<noteq> 0 then devnum else 1)]) [0] kind"

definition check_header :: "DB \<Rightarrow> string \<Rightarrow> string list \<Rightarrow> exn + DB" where
  "check_header self file hdr2 =
     (if hdr self = [] then Inr (self\<lparr>hdr := hdr2\<rparr>)
      else if hdr self \<noteq> hdr2
      then Inl (SystemExit (HeadersDiffer file (the (refile self))
                  (set hdr2 - set (hdr self)) (set (hdr self) - set hdr2)
                  hdr2 (hdr self)))
      else Inr self)"

definition data_line :: "env \<Rightarrow> string \<Rightarrow> exn + real list" where
  "data_line e r = mapM (float e) (str_split '' '' (strip r))"

text \<open>The loop \<^verbatim>\<open>for r in rows[8:]\<close>, which returns at the first line starting with \<open>#\<close>.\<close>

fun read_rows ::
  "env \<Rightarrow> real list \<Rightarrow> nat list \<Rightarrow> int list \<Rightarrow> int \<Rightarrow> nat \<Rightarrow> string list \<Rightarrow> DB \<Rightarrow> exn + DB" where
  "read_rows e vals kind index devnum n [] self = Inr self"
| "read_rows e vals kind index devnum n (r # rs) self =
     ebind (pyget r 0) (\<lambda>c.
       if c = CHR ''#'' then Inr self
       else
         ebind (data_line e r) (\<lambda>dat.
         ebind (expand vals kind index n dat [0..<nat devnum] self) (\<lambda>self'.
           read_rows e vals kind index devnum n rs self')))"

definition read :: "env \<Rightarrow> DB \<Rightarrow> string \<Rightarrow> exn + DB" where
  "read e self file =
     (let self1 = (if refile self = None then self\<lparr>refile := Some file\<rparr> else self) in
      case fs e file of
        None \<Rightarrow> Inl IOError
      | Some rows \<Rightarrow>
          if length rows < 9 then Inr self1
          else
            ebind (param_line e (rows ! 3)) (\<lambda>(vars, vals).
            (let hdr0 = column_line (rows ! 6);
                 kind = kinds hdr0;
                 hdr1 = map (prettify e) (vars @ hdr0);
                 devnum = devicecount kind (rows ! 7);
                 index = build_index devnum kind;
                 hdr2 = hdr1 @ (if sum_list kind \<noteq> 0 then [''device''] else [])
             in
             ebind (check_header self1 file hdr2) (\<lambda>self2.
               read_rows e vals kind index devnum (length hdr2) (drop 8 rows) self2))))"

fun read_all :: "env \<Rightarrow> string list \<Rightarrow> DB \<Rightarrow> exn + DB" where
  "read_all e [] self = Inr self"
| "read_all e (f # files) self = ebind (read e self f) (read_all e files)"

text \<open>
  The constructor \<^verbatim>\<open>DB(files)\<close>: a list whose first entry does not end in \<open>.txt\<close> is
  taken as the header of an empty table, any other list as the files to read.
\<close>

definition DB_init :: "env \<Rightarrow> string list \<Rightarrow> exn + DB" where
  "DB_init e files =
     (let self = \<lparr>hdr = [], data = [], refile = None\<rparr> in
      ebind (pyget files 0) (\<lambda>f0.
        if \<not> is_txt f0 then Inr (self\<lparr>hdr := files\<rparr>)
        else
          ebind (read_all e files self) (\<lambda>self'.
            if \<not> distinct (hdr self') then Inl AssertionError else Inr self')))"

definition new_DB :: "env \<Rightarrow> state \<Rightarrow> string list \<Rightarrow> exn + (nat \<times> state)" where
  "new_DB e s files =
     ebind (DB_init e files) (\<lambda>db. Inr (length (heap s), s\<lparr>heap := heap s @ [db]\<rparr>))"

section \<open>Split\<close>

text \<open>
  The dictionary \<open>d\<close> from value tuples to tables is an association list in order of
  first insertion, each table given by its address; a Python set is a duplicate-free
  list.  \<open>append_row s a y\<close> is \<^verbatim>\<open>d[x].data.append(y)\<close> on the object at address \<open>a\<close>.
\<close>

definition append_row :: "state \<Rightarrow> nat \<Rightarrow> real list \<Rightarrow> state" where
  "append_row s a y =
     s\<lparr>heap := (heap s)[a := (heap s ! a)\<lparr>data := data (heap s ! a) @ [y]\<rparr>]\<rparr>"

fun split_loop ::
  "env \<Rightarrow> nat list \<Rightarrow> nat list \<Rightarrow> string list \<Rightarrow> real list list \<Rightarrow>
   real list list \<times> (real list \<times> nat) list \<times> state \<Rightarrow>
   exn + (real list list \<times> (real list \<times> nat) list \<times> state)" where
  "split_loop e cols ncol hdrs [] acc = Inr acc"
| "split_loop e cols ncol hdrs (r # rs) (sets, d, s) =
     ebind (mapM (\<lambda>c. pyget r (int c)) cols) (\<lambda>x.
     ebind (mapM (\<lambda>c. pyget r (int c)) ncol) (\<lambda>y.
     ebind (case map_of d x of
              Some a \<Rightarrow> Inr (a, d, s)
            | None \<Rightarrow> ebind (new_DB e s hdrs) (\<lambda>(a, s'). Inr (a, d @ [(x, a)], s')))
       (\<lambda>(a, d', s').
          split_loop e cols ncol hdrs rs
            (map (\<lambda>(v, st). List.insert v st) (zip x sets), d', append_row s' a y))))"

definition split ::
  "env \<Rightarrow> state \<Rightarrow> nat \<Rightarrow> string list \<Rightarrow>
   exn + ((real list list \<times> (real list \<times> nat) list) \<times> state)" where
  "split e s self vars =
     (let db = heap s ! self in
      if length vars = 0 then Inr (([], [([], self)]), s)
      else
        ebind (mapM (list_index (hdr db)) vars) (\<lambda>cols.
        (let ncol = filter (\<lambda>i. i \<notin> set cols) [0..<length (hdr db)];
             hdrs = map (\<lambda>c. hdr db ! c) ncol
         in
         ebind (split_loop e cols ncol hdrs (data db) (map (\<lambda>c. []) cols, [], s))
           (\<lambda>(sets, d, s'). Inr ((map sort sets, d), s')))))"

section \<open>Filter\<close>

record Filter =
  var :: string
  op :: string
  val :: real

text \<open>
  \<^verbatim>\<open>Filter.compile\<close> returns a closure, or nothing (\<^verbatim>\<open>None\<close>) for an operator other
  than \<open><\<close>, \<open>=\<close>, \<open>>\<close>; calling nothing raises \<open>TypeError\<close>.  The list comprehension in
  \<^verbatim>\<open>compile_all\<close> runs every test on the row before \<^verbatim>\<open>all\<close> looks at the results.
\<close>

definition compile :: "Filter \<Rightarrow> string list \<Rightarrow> exn + (real list \<Rightarrow> exn + bool) option" where
  "compile f h =
     ebind (list_index h (var f)) (\<lambda>i.
       Inr (if op f = ''<'' then
              Some (\<lambda>r. ebind (pyget r (int i)) (\<lambda>x. Inr (x < val f + EPSILON)))
            else if op f = ''='' then
              Some (\<lambda>r. ebind (pyget r (int i)) (\<lambda>x.
                      Inr (val f - EPSILON < x \<and> x < val f + EPSILON)))
            else if op f = ''>'' then
              Some (\<lambda>r. ebind (pyget r (int i)) (\<lambda>x. Inr (x > val f - EPSILON)))
            else None))"

definition compile_all :: "Filter list \<Rightarrow> string list \<Rightarrow> exn + (real list \<Rightarrow> exn + bool)" where
  "compile_all l h =
     ebind (mapM (\<lambda>f. compile f h) l) (\<lambda>c.
       Inr (\<lambda>r. ebind (mapM (\<lambda>t. case t of None \<Rightarrow> Inl TypeError | Some p \<Rightarrow> p r) c)
                   (\<lambda>bs. Inr (list_all (\<lambda>b. b) bs))))"

text \<open>Every modelled number is finite, so \<^verbatim>\<open>isnum\<close> holds of every projected row.\<close>

definition isnum :: "real list \<Rightarrow> bool" where
  "isnum l = True"

fun filter_loop ::
  "(real list \<Rightarrow> exn + bool) \<Rightarrow> nat \<Rightarrow> real list list \<Rightarrow> state \<Rightarrow> exn + state" where
  "filter_loop test res [] s = Inr s"
| "filter_loop test res (r # rs) s =
     ebind (test r) (\<lambda>b. filter_loop test res rs (if b then append_row s res r else s))"

fun project_loop ::
  "(real list \<Rightarrow> exn + bool) \<Rightarrow> nat list \<Rightarrow> nat \<Rightarrow> real list list \<Rightarrow> state \<Rightarrow> exn + state" where
  "project_loop test cols res [] s = Inr s"
| "project_loop test cols res (r # rs) s =
     ebind (test r) (\<lambda>b.
       if b then
         (let s1 = s\<lparr>g_nans := (fst (g_nans s), snd (g_nans s) + 1)\<rparr> in
          ebind (mapM (\<lambda>c. pyget r (int c)) cols) (\<lambda>l.
            project_loop test cols res rs
              (if isnum l then append_row s1 res l
               else s1\<lparr>g_nans := (fst (g_nans s1) + 1, snd (g_nans s1))\<rparr>)))
       else project_loop test cols res rs s)"

definition filter_db ::
  "env \<Rightarrow> state \<Rightarrow> nat \<Rightarrow> Filter list \<Rightarrow> string list option \<Rightarrow> exn + (nat \<times> state)" where
  "filter_db e s self filters vars =
     (let db = heap s ! self in
      ebind (if length filters \<noteq> 0 then compile_all filters (hdr db)
             else Inr (\<lambda>r. Inr True)) (\<lambda>test.
        if vars = None \<or> vars = Some (hdr db) then
          (if length filters = 0 then Inr (self, s)
           else
             ebind (new_DB e s (hdr db)) (\<lambda>(res, s1).
             ebind (filter_loop test res (data db) s1) (\<lambda>s2. Inr (res, s2))))
        else
          ebind (mapM (list_index (hdr db)) (the vars)) (\<lambda>cols.
          ebind (new_DB e s (the vars)) (\<lambda>(res, s1).
          ebind (project_loop test cols res (data db) s1) (\<lambda>s2. Inr (res, s2))))))"

text \<open>A two-column table without rows.\<close>

definition table0 :: DB where
  "table0 = \<lparr>hdr = [''x'', ''y''], data = [], refile = None\<rparr>"

text \<open>
  For the proofs: the values the coalescing walk appends after a kept value \<open>t\<close>
  (see \<open>coalesce_loop_kept\<close>).
\<close>

fun kept :: "real \<Rightarrow> real list \<Rightarrow> real list" where
  "kept t [] = []"
| "kept t (x # xs) = (if farenough x t then x # kept x xs else kept t xs)"

text \<open>
  Example tables: a state holding one two-column table with the given rows at
  address 0; four well-separated rows; eight rows of which five share the largest
  x-value.
\<close>

definition table_of :: "real list list \<Rightarrow> state" where
  "table_of rows = state0\<lparr>heap := [\<lparr>hdr = [''x'', ''y''], data = rows, refile = None\<rparr>]\<rparr>"

definition rows4 :: "real list list" where
  "rows4 = [[4, 40], [1, 10], [3, 30], [2, 20]]"

definition rows_skew :: "real list list" where
  "rows_skew = [[1, 0], [2, 0], [3, 0], [4, 0], [4, 1], [4, 2], [4, 3], [4, 4]]"

section \<open>Notions used to state the results on tables\<close>

text \<open>
  \<open>is_header h\<close>: the list \<open>h\<close> is one the constructor takes as a header (it has a first
  entry, which does not look like a file name).  \<open>proj cs r\<close> is the comprehension
  \<^verbatim>\<open>[r[c] for c in cs]\<close> where it does not raise, \<open>first_index xs v\<close> the value of
  \<^verbatim>\<open>xs.index(v)\<close> where it does not raise.  \<open>unsplit n cols ncol x y\<close> puts a value
  tuple \<open>x\<close> (the entries at the positions \<open>cols\<close>) and a remainder \<open>y\<close> (the entries at
  the positions \<open>ncol\<close>) back together into a row of length \<open>n\<close>.
\<close>

definition is_header :: "string list \<Rightarrow> bool" where
  "is_header h = (h \<noteq> [] \<and> \<not> is_txt (hd h))"

definition proj :: "nat list \<Rightarrow> 'a list \<Rightarrow> 'a list" where
  "proj cs r = map (\<lambda>c. r ! c) cs"

definition first_index :: "'a list \<Rightarrow> 'a \<Rightarrow> nat" where
  "first_index xs v = length (takeWhile (\<lambda>x. x \<noteq> v) xs)"

definition unsplit :: "nat \<Rightarrow> nat list \<Rightarrow> nat list \<Rightarrow> 'a list \<Rightarrow> 'a list \<Rightarrow> 'a list" where
  "unsplit n cols ncol x y =
     map (\<lambda>i. if i \<in> set cols then x ! first_index cols i else y ! first_index ncol i) [0..<n]"

text \<open>
  The loop invariant of \<^verbatim>\<open>split\<close> after the rows \<open>done\<close>: the dictionary \<open>d\<close> has one
  entry per value tuple seen, each at an address of its own allocated after the
  call began (at or above \<open>n0\<close>), holding the remainders of the rows with that tuple
  in their original order.
\<close>

definition split_inv ::
  "nat list \<Rightarrow> nat list \<Rightarrow> string list \<Rightarrow> nat \<Rightarrow> real list list \<Rightarrow>
   (real list \<times> nat) list \<Rightarrow> state \<Rightarrow> bool" where
  "split_inv cols ncol hdrs n0 done d s =
     (n0 \<le> length (heap s) \<and> distinct (map fst d) \<and> distinct (map snd d) \<and>
      list_all (\<lambda>(x, a). n0 \<le> a \<and> a < length (heap s) \<and> hdr (heap s ! a) = hdrs \<and>
                 data (heap s ! a) = map (proj ncol) (filter (\<lambda>r. proj cols r = x) done)) d \<and>
      fst ` set d = proj cols ` set done)"

text \<open>
  An environment without files, and example tables: one with the columns \<open>k\<close> and \<open>x\<close>
  and three rows, one with the single column \<open>k\<close> and one row.
\<close>

definition env0 :: env where
  "env0 = \<lparr>prettify = (\<lambda>t. t), pyfloat = (\<lambda>t. None), fs = (\<lambda>f. None)\<rparr>"

definition table_kx :: DB where
  "table_kx = \<lparr>hdr = [''k'', ''x''], data = [[1, 10], [2, 20], [1, 30]], refile = None\<rparr>"

definition table_k :: DB where
  "table_k = \<lparr>hdr = [''k''], data = [[1]], refile = None\<rparr>"

text \<open>The filter \<^verbatim>\<open>k<1.5\<close>, and two rows that are not in sorted order.\<close>

definition filter_k :: Filter where
  "filter_k = \<lparr>var = ''k'', op = ''<'', val = 3 / 2\<rparr>"

definition rows_unsorted :: "real list list" where
  "rows_unsorted = [[2, 1], [1, 1]]"

text \<open>
  For the results on \<^verbatim>\<open>read\<close>: the table row the inner loop builds from the parameter
  values \<open>vals\<close> and the floats \<open>dat\<close> of one data line for the device slot \<open>d\<close>, and the
  data lines of a file, namely the lines from the ninth on that come before the
  first line starting with \<open>#\<close>.
\<close>

definition device_row :: "real list \<Rightarrow> nat list \<Rightarrow> int list \<Rightarrow> real list \<Rightarrow> nat \<Rightarrow> real list" where
  "device_row vals kind index dat d =
     vals @ map (\<lambda>i. dat ! nat (index ! i + int d * int (kind ! i))) [0..<length kind]
          @ (if sum_list kind \<noteq> 0 then [real d] else [])"

definition data_lines :: "string list \<Rightarrow> string list" where
  "data_lines rows = takeWhile (\<lambda>r. take 1 r \<noteq> ''#'') (drop 8 rows)"

section \<open>Basic facts\<close>

lemma ebind_Inl [simp]: "ebind (Inl e) f = Inl e"
  by (simp add: ebind_def)

lemma ebind_Inr [simp]: "ebind (Inr x) f = f x"
  by (simp add: ebind_def)

lemma ebind_eq_Inr: "ebind m f = Inr y \<longleftrightarrow> (\<exists>x. m = Inr x \<and> f x = Inr y)"
  by (cases m) simp_all

lemma pyget_nat: "i < length xs \<Longrightarrow> pyget xs (int i) = Inr (xs ! i)"
  by (simp add: pyget_def)

lemma pyget_last: "xs \<noteq> [] \<Longrightarrow> pyget xs (- 1) = Inr (last xs)"
  by (cases xs rule: rev_cases) (simp_all add: pyget_def)


lemma sort_Nil_iff: "sort l = [] \<longleftrightarrow> l = []"
  by (metis length_sort length_0_conv)

lemma sort_hd_Min: "l \<noteq> [] \<Longrightarrow> sort l ! 0 = Min (set l)"
proof -
  assume ne: "l \<noteq> []"
  have s: "sorted (sort l)" and e: "set (sort l) = set l" and n: "sort l \<noteq> []"
    using ne by (auto simp: sort_Nil_iff)
  then obtain a as where c: "sort l = a # as" by (cases "sort l") auto
  have "a \<in> set l" using c e by (metis list.set_intros(1))
  moreover have "\<forall>y\<in>set l. a \<le> y" using s c e
    by (metis order_refl set_ConsD sorted_simps(2))
  ultimately have "Min (set l) = a"
    by (intro Min_eqI) auto
  then show ?thesis using c by simp
qed

lemma sort_last_Max: "l \<noteq> [] \<Longrightarrow> last (sort l) = Max (set l)"
proof -
  assume ne: "l \<noteq> []"
  have s: "sorted (sort l)" and e: "set (sort l) = set l" and n: "sort l \<noteq> []"
    using ne by (auto simp: sort_Nil_iff)
  have "last (sort l) \<in> set l" using n e last_in_set by blast
  moreover have "\<forall>y\<in>set l. y \<le> last (sort l)"
  proof
    fix y assume "y \<in> set l"
    then have "y \<in> set (sort l)" using e by simp
    then obtain i where i: "i < length (sort l)" "sort l ! i = y"
      by (metis in_set_conv_nth)
    have "sort l ! i \<le> sort l ! (length (sort l) - 1)"
      using s i(1) by (intro sorted_nth_mono) auto
    then show "y \<le> last (sort l)" using i(2) n by (simp add: last_conv_nth)
  qed
  ultimately show ?thesis by (intro Max_eqI[symmetric]) auto
qed

section \<open>Facts about rounding\<close>

lemma tiny_scale: "2 ^ 1074 * tiny = 1"
  by (simp add: tiny_def)

lemma finite_grid: "finite grid"
proof -
  have i: "{m :: int. \<bar>m\<bar> \<le> 2 ^ 53} = {- (2 ^ 53) .. 2 ^ 53}" by auto
  have "finite ({m :: int. \<bar>m\<bar> \<le> 2 ^ 53} \<times> {k :: nat. k \<le> 2045})"
    unfolding i by (intro finite_cartesian_product) simp_all
  then have "finite ((\<lambda>(m, k). real_of_int m * 2 ^ k * tiny) `
                      ({m :: int. \<bar>m\<bar> \<le> 2 ^ 53} \<times> {k :: nat. k \<le> 2045}))"
    by (rule finite_imageI)
  moreover have "grid \<subseteq> (\<lambda>(m, k). real_of_int m * 2 ^ k * tiny) `
                      ({m :: int. \<bar>m\<bar> \<le> 2 ^ 53} \<times> {k :: nat. k \<le> 2045})"
    unfolding grid_def by (auto simp: image_iff)
  ultimately show ?thesis by (rule rev_finite_subset)
qed

lemma gridI:
  "\<bar>m\<bar> \<le> 2 ^ 53 \<Longrightarrow> k \<le> 2045 \<Longrightarrow> x = real_of_int m * 2 ^ k * tiny \<Longrightarrow> x \<in> grid"
  unfolding grid_def by blast

lemma grid_pow:
  assumes "\<bar>m\<bar> \<le> 2 ^ 53" "j \<le> 971"
  shows "real_of_int m * 2 ^ j \<in> grid"
proof (rule gridI[OF assms(1), of "1074 + j"])
  show "1074 + j \<le> 2045" using assms(2) by simp
  have "real_of_int m * 2 ^ (1074 + j) * tiny = real_of_int m * 2 ^ j * (2 ^ 1074 * tiny)"
    by (simp only: power_add mult.assoc mult.commute mult.left_commute)
  then show "real_of_int m * 2 ^ j = real_of_int m * 2 ^ (1074 + j) * tiny"
    by (simp only: tiny_scale mult_1_right)
qed

lemma grid_int: "\<bar>n\<bar> \<le> 2 ^ 53 \<Longrightarrow> real_of_int n \<in> grid"
  using grid_pow[of n 0] by simp

lemma grid_dyadic:
  assumes "\<bar>m\<bar> \<le> 2 ^ 53" "j \<le> 1074"
  shows "real_of_int m / 2 ^ j \<in> grid"
proof (rule gridI[OF assms(1), of "1074 - j"])
  show "1074 - j \<le> 2045" by simp
  have "(2::real) ^ 1074 = 2 ^ (1074 - j) * 2 ^ j"
    using assms(2) by (simp only: power_add[symmetric] le_add_diff_inverse2)
  then have "(2::real) ^ (1074 - j) * 2 ^ j * tiny = 1"
    using tiny_scale by simp
  then have "(2::real) ^ (1074 - j) * tiny = 1 / 2 ^ j"
    by (simp add: field_simps)
  then have "real_of_int m * (2 ^ (1074 - j) * tiny) = real_of_int m * (1 / 2 ^ j)"
    by (simp only:)
  then show "real_of_int m / 2 ^ j = real_of_int m * 2 ^ (1074 - j) * tiny"
    by (simp only: mult.assoc times_divide_eq_right mult_1_right)
qed

lemma grid_uminus: "x \<in> grid \<Longrightarrow> - x \<in> grid"
proof -
  assume "x \<in> grid"
  then obtain m k where x: "x = real_of_int m * 2 ^ k * tiny" "\<bar>m\<bar> \<le> 2 ^ 53" "k \<le> 2045"
    unfolding grid_def by blast
  have "- x = real_of_int (- m) * 2 ^ k * tiny" using x(1) by simp
  moreover have "\<bar>- m\<bar> \<le> 2 ^ 53" using x(2) by simp
  ultimately show ?thesis using x(3) by (intro gridI[of "- m" k])
qed

lemma dn_le: "g \<in> grid \<Longrightarrow> g \<le> x \<Longrightarrow> g \<le> dn x \<and> dn x \<le> x \<and> dn x \<in> grid"
proof -
  assume g: "g \<in> grid" "g \<le> x"
  let ?S = "{f \<in> grid. f \<le> x}"
  have f: "finite ?S" using finite_grid by simp
  have ne: "?S \<noteq> {}" using g by auto
  have "Max ?S \<in> ?S" using f ne by (rule Max_in)
  moreover have "g \<le> Max ?S" using f g by (intro Max_ge) simp_all
  ultimately show ?thesis by (simp add: dn_def)
qed

lemma up_ge: "g \<in> grid \<Longrightarrow> x \<le> g \<Longrightarrow> up x \<le> g \<and> x \<le> up x \<and> up x \<in> grid"
proof -
  assume g: "g \<in> grid" "x \<le> g"
  let ?S = "{f \<in> grid. x \<le> f}"
  have f: "finite ?S" using finite_grid by simp
  have ne: "?S \<noteq> {}" using g by auto
  have "Min ?S \<in> ?S" using f ne by (rule Min_in)
  moreover have "Min ?S \<le> g" using f g by (intro Min_le) simp_all
  ultimately show ?thesis by (simp add: up_def)
qed

lemma rnd_cases: "rnd x = dn x \<or> rnd x = up x"
  by (simp add: rnd_def)

text \<open>Rounding stays between any two members of the grid that enclose the exact value.\<close>

lemma rnd_bracket:
  assumes "g1 \<in> grid" "g1 \<le> x" "g2 \<in> grid" "x \<le> g2"
  shows "g1 \<le> rnd x" "rnd x \<le> g2" "rnd x \<in> grid"
proof -
  note d = dn_le[OF assms(1,2)] and u = up_ge[OF assms(3,4)]
  show "g1 \<le> rnd x" using rnd_cases[of x] d u by linarith
  show "rnd x \<le> g2" using rnd_cases[of x] d u by linarith
  show "rnd x \<in> grid" using rnd_cases[of x] d u by auto
qed

lemma rnd_exact: "x \<in> grid \<Longrightarrow> rnd x = x"
  using rnd_bracket(1,2)[of x x x] by simp

lemma fin_exact: "is_double x \<Longrightarrow> fin x = Fin x"
  by (auto simp: is_double_def fin_def rnd_exact Let_def abs_less_iff)
lemma boundaries_empty: "0 < B \<Longrightarrow> boundaries B [] = Inr [0]"
  by (simp add: boundaries_def coalesce_def bisect_left_by_def)

section \<open>Bucketize on an empty table\<close>

text \<open>
  Claim C10.  On a table with a two-column header and no rows, \<^verbatim>\<open>bucketize\<close> returns
  the empty point list and leaves the state as it was, for every positive value of
  \<^verbatim>\<open>BUCKETS\<close> (the script only ever sets a positive one): the boundary list is the
  single position \<open>0\<close>, so no slice is formed and \<^verbatim>\<open>qnt\<close> is never called.
\<close>

theorem bucketize_empty:
  assumes "self < length (heap s)"
    and "length (hdr (heap s ! self)) = 2"
    and "data (heap s ! self) = []"
    and "0 < B"
  shows "bucketize B s self aggr = Inr ([], s) \<and> boundaries B [] = Inr [0]"
proof -
  have "(heap s ! self)\<lparr>data := []\<rparr> = heap s ! self"
    using assms(3) by (metis DB.surjective DB.update_convs(2))
  then have "s\<lparr>heap := (heap s)[self := (heap s ! self)\<lparr>data := []\<rparr>]\<rparr> = s"
    by simp
  then show ?thesis using assms
    by (simp add: bucketize_def Let_def boundaries_empty)
qed

theorem bucketize_empty_witness:
  "(0 :: nat) < length (heap (state0\<lparr>heap := [table0]\<rparr>)) \<and>
   length (hdr (heap (state0\<lparr>heap := [table0]\<rparr>) ! 0)) = 2 \<and>
   data (heap (state0\<lparr>heap := [table0]\<rparr>) ! 0) = [] \<and> 0 < BUCKETS \<and>
   bucketize BUCKETS (state0\<lparr>heap := [table0]\<rparr>) 0 Mean = Inr ([], state0\<lparr>heap := [table0]\<rparr>) \<and>
   boundaries BUCKETS [] = Inr [0]"
  using bucketize_empty [of 0 "state0\<lparr>heap := [table0]\<rparr>" BUCKETS Mean]
  by (simp add: state0_def table0_def BUCKETS_def)

section \<open>Facts about list comprehensions\<close>

lemma mapM_map: "(\<And>x. x \<in> set xs \<Longrightarrow> f x = Inr (g x)) \<Longrightarrow> mapM f xs = Inr (map g xs)"
  by (induction xs) simp_all

lemma mapM_length: "mapM f xs = Inr ys \<Longrightarrow> length ys = length xs"
  by (induction xs arbitrary: ys) (auto simp: ebind_eq_Inr)

lemma mapM_nth:
  "mapM f xs = Inr ys \<Longrightarrow> i < length xs \<Longrightarrow> f (xs ! i) = Inr (ys ! i)"
proof (induction xs arbitrary: ys i)
  case Nil
  then show ?case by simp
next
  case (Cons x xs)
  then obtain y ys' where y: "f x = Inr y" "mapM f xs = Inr ys'" "ys = y # ys'"
    by (auto simp: ebind_eq_Inr)
  show ?case using Cons.IH[OF y(2)] Cons.prems(2) y by (cases i) simp_all
qed

lemma pyget_0: "r \<noteq> [] \<Longrightarrow> pyget r 0 = Inr (hd r)"
  by (cases r) (simp_all add: pyget_def)

lemma pyget_1: "2 \<le> length r \<Longrightarrow> pyget r 1 = Inr (r ! 1)"
  by (simp add: pyget_def)

lemma pyget_Inr_nat: "pyget r (int c) = Inr v \<longleftrightarrow> c < length r \<and> v = r ! c"
  by (auto simp: pyget_def)

section \<open>The coalescing loop in closed form\<close>

lemma coalesce_loop_kept:
  "tmp \<noteq> [] \<Longrightarrow> coalesce_loop tmp xs = Inr (tmp @ kept (last tmp) xs)"
  by (induction xs arbitrary: tmp) (simp_all add: pyget_last)

lemma coalesce_kept:
  "coalesce ix = Inr (case ix of [] \<Rightarrow> [] | x # xs \<Rightarrow> x # kept x xs)"
  by (cases ix) (simp_all add: coalesce_def coalesce_loop_kept)

lemma set_kept: "set (kept t xs) \<subseteq> set xs"
  by (induction xs arbitrary: t) auto

lemma length_kept: "length (kept t xs) \<le> length xs"
  by (induction xs arbitrary: t) (auto intro: le_SucI)

lemma sorted_kept: "sorted_wrt (<) (t # xs) \<Longrightarrow> sorted_wrt (<) (t # kept t xs)"
proof (induction xs arbitrary: t)
  case Nil
  then show ?case by simp
next
  case (Cons x xs)
  have a: "sorted_wrt (<) (x # xs)" and b: "sorted_wrt (<) (t # xs)" and c: "t < x"
    using Cons.prems by auto
  show ?case
  proof (cases "farenough x t")
    case True
    have "\<forall>y\<in>set (x # kept x xs). t < y"
      using Cons.prems set_kept[of x xs] by auto
    then show ?thesis using True Cons.IH[OF a] by simp
  next
    case False
    then show ?thesis using Cons.IH[OF b] by simp
  qed
qed

lemma coalesce_props:
  assumes "coalesce ix = Inr tmp"
  shows "set tmp \<subseteq> set ix" "length tmp \<le> length ix"
    "sorted_wrt (<) ix \<Longrightarrow> sorted_wrt (<) tmp" "ix \<noteq> [] \<Longrightarrow> tmp \<noteq> []"
proof -
  have t: "tmp = (case ix of [] \<Rightarrow> [] | x # xs \<Rightarrow> x # kept x xs)"
    using assms coalesce_kept[of ix] by simp
  show "set tmp \<subseteq> set ix" unfolding t using set_kept by (cases ix) auto
  show "length tmp \<le> length ix" unfolding t using length_kept by (cases ix) auto
  show "sorted_wrt (<) ix \<Longrightarrow> sorted_wrt (<) tmp" unfolding t using sorted_kept
    by (cases ix) simp_all
  show "ix \<noteq> [] \<Longrightarrow> tmp \<noteq> []" unfolding t by (cases ix) simp_all
qed

section \<open>The loop over the boundaries\<close>

lemma slice_Nil_iff: "slice xs a b = [] \<longleftrightarrow> b \<le> a \<or> length xs \<le> a"
  by (auto simp: slice_def)

lemma set_slice: "set (slice xs a b) = {xs ! j | j. a \<le> j \<and> j < b \<and> j < length xs}"
proof (intro equalityI subsetI)
  fix v assume "v \<in> set (slice xs a b)"
  then obtain i where i: "i < length (take (b - a) (drop a xs))"
      "take (b - a) (drop a xs) ! i = v"
    unfolding slice_def by (metis in_set_conv_nth)
  have r: "i < b - a" "i < length xs - a" using i(1) by simp_all
  then have "v = xs ! (a + i)" using i(2) by simp
  moreover have "a \<le> a + i" "a + i < b" "a + i < length xs" using r by auto
  ultimately show "v \<in> {xs ! j | j. a \<le> j \<and> j < b \<and> j < length xs}" by blast
next
  fix v assume "v \<in> {xs ! j | j. a \<le> j \<and> j < b \<and> j < length xs}"
  then obtain j where j: "v = xs ! j" "a \<le> j" "j < b" "j < length xs" by blast
  have l: "j - a < length (take (b - a) (drop a xs))" using j by (simp, arith)
  have "take (b - a) (drop a xs) ! (j - a) = v" using j by simp
  then show "v \<in> set (slice xs a b)" unfolding slice_def using l by (metis nth_mem)
qed

lemma error_frame:
  "error s l e2 = Inr s' \<Longrightarrow> heap s' = heap s \<and> g_nans s' = g_nans s"
  by (auto simp: error_def ebind_eq_Inr split: if_splits)

lemma qnt_state:
  assumes "qnt s l q = Inr (v, s')"
  shows "\<exists>El El2. avg (map Fin l) = Inr El \<and> pow2 El = Inr El2 \<and> error s l El2 = Inr s'"
proof -
  from assms obtain El El2 s1 where
    a: "avg (map Fin l) = Inr El" "pow2 El = Inr El2" "error s l El2 = Inr s1"
    and r: "(case q of Mean \<Rightarrow> Inr (El, s1)
       | Quantile q \<Rightarrow>
          (let l' = sort l; n = fin (real (length l')); nq = fmul n (Fin q) in
           if fle nq (Fin (1 / 2)) then ebind (pyget l' 0) (\<lambda>v. Inr (Fin v, s1))
           else if fle (fsub n (Fin (1 / 2))) nq
           then ebind (pyget l' (- 1)) (\<lambda>v. Inr (Fin v, s1))
           else
             ebind (py_int (fsub nq (Fin (1 / 2)))) (\<lambda>i.
             (let f = fsub (fsub nq (Fin (1 / 2))) (fin (real_of_int i)) in
              ebind (pyget l' i) (\<lambda>a.
              ebind (pyget l' (i + 1)) (\<lambda>b.
                Inr (fadd (fmul (Fin a) (fsub (Fin 1) f)) (fmul (Fin b) f), s1))))))) = Inr (v, s')"
    unfolding qnt_def by (auto simp: ebind_eq_Inr)
  have "s' = s1"
    using r by (cases q) (auto simp: Let_def ebind_eq_Inr split: if_splits)
  then show ?thesis using a by blast
qed

lemma qnt_frame: "qnt s l q = Inr (v, s') \<Longrightarrow> heap s' = heap s \<and> g_nans s' = g_nans s"
  using qnt_state error_frame by blast

section \<open>Results that stay in the finite range\<close>

lemma huge_pos: "0 < huge"
  by (simp add: huge_def)

lemma pow_less_huge: "k < 1024 \<Longrightarrow> (2::real) ^ k < huge"
  unfolding huge_def by (rule power_strict_increasing) simp_all

lemma huge_grid: "huge \<in> grid"
proof -
  have "real_of_int (2 ^ 53) * 2 ^ 971 \<in> grid" by (rule grid_pow) simp_all
  moreover have "real_of_int (2 ^ 53) * 2 ^ 971 = (2::real) ^ (53 + 971)"
    by (simp only: of_int_power of_int_numeral power_add)
  ultimately show ?thesis by (simp add: huge_def)
qed

lemma fin_bounded:
  assumes "g \<in> grid" "g < huge" "\<bar>x\<bar> \<le> g"
  shows "\<exists>r. fin x = Fin r \<and> \<bar>r\<bar> \<le> g \<and> r \<in> grid"
proof -
  have m: "- g \<in> grid" using assms(1) by (rule grid_uminus)
  have lo: "- g \<le> x" and hi: "x \<le> g" using assms(3) by (simp_all add: abs_le_iff)
  note b = rnd_bracket[OF m lo assms(1) hi]
  have "\<not> huge \<le> x" "\<not> x \<le> - huge" using assms(2) lo hi by simp_all
  moreover have "rnd x \<noteq> huge" "rnd x \<noteq> - huge" using b(1,2) assms(2) by simp_all
  ultimately have "fin x = Fin (rnd x)" by (simp add: fin_def Let_def)
  then show ?thesis using b by (simp add: abs_le_iff)
qed

lemma fin_cases: "fin x = PInf \<or> fin x = NInf \<or> (\<exists>r. fin x = Fin r \<and> is_double r)"
proof (cases "huge \<le> x \<or> x \<le> - huge")
  case True
  then show ?thesis using huge_pos by (auto simp: fin_def)
next
  case False
  then have lo: "- huge \<le> x" and hi: "x \<le> huge" by simp_all
  note b = rnd_bracket[OF grid_uminus[OF huge_grid] lo huge_grid hi]
  show ?thesis
  proof (cases "rnd x = huge \<or> rnd x = - huge")
    case True
    then show ?thesis using False huge_pos by (auto simp: fin_def Let_def)
  next
    case False
    then have "\<bar>rnd x\<bar> < huge" using b(1,2) by (simp add: abs_less_iff)
    then have "is_double (rnd x)" using b(3) by (simp add: is_double_def)
    moreover have "fin x = Fin (rnd x)"
      using False \<open>\<not> (huge \<le> x \<or> x \<le> - huge)\<close> by (simp add: fin_def Let_def)
    ultimately show ?thesis by blast
  qed
qed

lemma is_double_int: "\<bar>n\<bar> \<le> 2 ^ 53 \<Longrightarrow> is_double (real_of_int n)"
proof -
  assume n: "\<bar>n\<bar> \<le> 2 ^ 53"
  have "real_of_int \<bar>n\<bar> \<le> real_of_int (2 ^ 53)" using n by (simp only: of_int_le_iff)
  then have "\<bar>real_of_int n\<bar> \<le> 2 ^ 53" by simp
  also have "\<dots> < huge" by (rule pow_less_huge) simp
  finally show ?thesis using grid_int[OF n] by (simp add: is_double_def)
qed

lemma is_double_nat: "n \<le> 2 ^ 53 \<Longrightarrow> is_double (real n)"
  using is_double_int[of "int n"] by simp

lemma is_double_dyadic:
  assumes "\<bar>m\<bar> \<le> 2 ^ 53" "j \<le> 1074"
  shows "is_double (real_of_int m / 2 ^ j)"
proof -
  have "real_of_int \<bar>m\<bar> \<le> real_of_int (2 ^ 53)" using assms(1) by (simp only: of_int_le_iff)
  then have a: "\<bar>real_of_int m\<bar> \<le> 2 ^ 53" by simp
  have "\<bar>real_of_int m\<bar> / 2 ^ j \<le> \<bar>real_of_int m\<bar> / 1"
    by (rule divide_left_mono) simp_all
  then have "\<bar>real_of_int m / 2 ^ j\<bar> \<le> 2 ^ 53" using a by simp
  also have "\<dots> < huge" by (rule pow_less_huge) simp
  finally show ?thesis using grid_dyadic[OF assms] by (simp add: is_double_def)
qed

lemma fin_nat: "n \<le> 2 ^ 53 \<Longrightarrow> fin (real n) = Fin (real n)"
  by (rule fin_exact) (rule is_double_nat)

lemma fin_0 [simp]: "fin 0 = Fin 0"
  using fin_nat[of 0] by simp

lemma fin_nat_nonzero: "0 < n \<Longrightarrow> fin (real n) \<noteq> Fin 0"
proof (cases "huge \<le> real n")
  case True
  then show ?thesis by (simp add: fin_def)
next
  case False
  assume "0 < n"
  then have one: "1 \<le> real n" by simp
  have g1: "(1::real) \<in> grid" using grid_int[of 1] by simp
  have "1 \<le> rnd (real n)"
    using rnd_bracket(1)[OF g1 one huge_grid] False by simp
  then show ?thesis
    by (auto simp: fin_def Let_def)
qed

section \<open>Means and squares of bounded lists\<close>

lemma avg_nonempty:
  assumes "l \<noteq> []"
  shows "avg l = Inr (fquot (foldl fadd (Fin 0) l) (fin (real (length l))))"
  using assms fin_nat_nonzero[of "length l"] by (simp add: avg_def fdiv_def)

lemma bound_grid:
  assumes "k \<le> 2 ^ 53"
  shows "real k * 2 ^ 511 \<in> grid" and "real k * 2 ^ 511 < huge"
proof -
  have "real_of_int (int k) * 2 ^ 511 \<in> grid"
    by (rule grid_pow) (use assms in simp_all)
  then show "real k * 2 ^ 511 \<in> grid" by simp
  have "real k \<le> 2 ^ 53" using assms by (metis of_nat_le_iff of_nat_numeral of_nat_power)
  then have "real k * 2 ^ 511 \<le> 2 ^ 53 * 2 ^ 511" by (rule mult_right_mono) simp
  also have "\<dots> = (2::real) ^ 564" by (simp only: power_add[symmetric]) simp
  also have "\<dots> < huge" by (rule pow_less_huge) simp
  finally show "real k * 2 ^ 511 < huge" .
qed

lemma foldl_fadd_bound:
  assumes "\<forall>x\<in>set l. \<bar>x\<bar> \<le> 2 ^ 511" "k + length l \<le> 2 ^ 53" "\<bar>a\<bar> \<le> real k * 2 ^ 511"
  shows "\<exists>r. foldl fadd (Fin a) (map Fin l) = Fin r \<and> \<bar>r\<bar> \<le> real (k + length l) * 2 ^ 511"
  using assms
proof (induction l arbitrary: a k)
  case Nil
  then show ?case by simp
next
  case (Cons x l)
  have k1: "Suc k \<le> 2 ^ 53" using Cons.prems(2) by simp
  have x: "\<bar>x\<bar> \<le> 2 ^ 511" using Cons.prems(1) by simp
  have "\<bar>a + x\<bar> \<le> real k * 2 ^ 511 + 2 ^ 511" using Cons.prems(3) x by linarith
  then have b: "\<bar>a + x\<bar> \<le> real (Suc k) * 2 ^ 511" by (simp add: algebra_simps)
  obtain r where r: "fin (a + x) = Fin r" "\<bar>r\<bar> \<le> real (Suc k) * 2 ^ 511"
    using fin_bounded[OF bound_grid[OF k1] b] by blast
  have "\<exists>r'. foldl fadd (Fin r) (map Fin l) = Fin r' \<and>
          \<bar>r'\<bar> \<le> real (Suc k + length l) * 2 ^ 511"
    using Cons.IH[of "Suc k" r] Cons.prems(1,2) r(2) by simp
  then show ?case using r(1) by simp
qed

lemma avg_bounded:
  assumes "l \<noteq> []" "length l \<le> 2 ^ 53" "\<forall>x\<in>set l. \<bar>x\<bar> \<le> 2 ^ 511"
  shows "\<exists>El. avg (map Fin l) = Inr (Fin El) \<and> \<bar>El\<bar> \<le> 2 ^ 511"
proof -
  let ?n = "length l"
  obtain S where S: "foldl fadd (Fin 0) (map Fin l) = Fin S" "\<bar>S\<bar> \<le> real ?n * 2 ^ 511"
    using foldl_fadd_bound[OF assms(3), of 0 0] assms(2) by auto
  have n: "0 < real ?n" using assms(1) by simp
  have "\<bar>S / real ?n\<bar> = \<bar>S\<bar> / real ?n" using n by simp
  also have "\<dots> \<le> 2 ^ 511" using S(2) n by (simp add: pos_divide_le_eq mult.commute)
  finally have q: "\<bar>S / real ?n\<bar> \<le> real 1 * 2 ^ 511" by simp
  obtain El where El: "fin (S / real ?n) = Fin El" "\<bar>El\<bar> \<le> real 1 * 2 ^ 511"
    using fin_bounded[OF bound_grid[of 1] q] by auto
  have "avg (map Fin l) = Inr (Fin El)"
    using avg_nonempty[of "map Fin l"] assms(1) S(1) fin_nat[OF assms(2)] El(1) by simp
  then show ?thesis using El(2) by simp
qed

lemma pow2_bounded:
  assumes "\<bar>x\<bar> \<le> 2 ^ 511"
  shows "\<exists>r. pow2 (Fin x) = Inr (Fin r)"
proof -
  have g: "real_of_int (2 ^ 51) * 2 ^ 971 \<in> grid" by (rule grid_pow) simp_all
  have e: "real_of_int (2 ^ 51) * 2 ^ 971 = (2::real) ^ 1022"
    by (simp only: of_int_power of_int_numeral power_add[symmetric]) simp
  have g': "(2::real) ^ 1022 \<in> grid" using g e by simp
  have h: "(2::real) ^ 1022 < huge" by (rule pow_less_huge) simp
  have "\<bar>x * x\<bar> = \<bar>x\<bar> * \<bar>x\<bar>" by (simp add: abs_mult)
  also have "\<dots> \<le> 2 ^ 511 * 2 ^ 511" using assms by (intro mult_mono) simp_all
  also have "\<dots> = (2::real) ^ 1022" by (simp only: power_add[symmetric]) simp
  finally have "\<bar>x * x\<bar> \<le> 2 ^ 1022" .
  then obtain r where "fin (x * x) = Fin r" using fin_bounded[OF g' h] by blast
  then show ?thesis by simp
qed

lemma mapM_pow2_bounded:
  "\<forall>x\<in>set l. \<bar>x\<bar> \<le> 2 ^ 511 \<Longrightarrow> \<exists>sq. mapM pow2 (map Fin l) = Inr sq \<and> length sq = length l"
proof (induction l)
  case Nil
  then show ?case by simp
next
  case (Cons x l)
  obtain r where r: "pow2 (Fin x) = Inr (Fin r)" using pow2_bounded[of x] Cons.prems by auto
  obtain sq where "mapM pow2 (map Fin l) = Inr sq" "length sq = length l"
    using Cons by auto
  then show ?case using r by simp
qed

section \<open>The error accounting never raises after the squares\<close>

lemma fsqrt_pymax: "\<exists>d. fsqrt (pymax v (Fin 0)) = Inr d"
  by (cases v) (auto simp: pymax_def)

lemma error_returns:
  assumes "mapM pow2 (map Fin l) = Inr sq" "l \<noteq> []"
  shows "\<exists>s1. error s l El2 = Inr s1"
proof (cases "El2 = Fin 0")
  case True
  then show ?thesis by (simp add: error_def)
next
  case False
  have "length sq = length l" using mapM_length[OF assms(1)] by simp
  then have ne: "sq \<noteq> []" using assms(2) by auto
  obtain d where d: "fsqrt (pymax (fsub (fquot (fquot (foldl fadd (Fin 0) sq)
                        (fin (real (length sq)))) El2) (Fin 1)) (Fin 0)) = Inr d"
    using fsqrt_pymax by blast
  show ?thesis
    using False d by (simp add: error_def assms(1) avg_nonempty[OF ne] fdiv_def)
qed

section \<open>The interpolation index is in range\<close>

lemma half_tiny: "2 ^ 1073 * tiny = 1 / 2"
proof -
  have "(2::real) ^ 1074 = 2 * 2 ^ 1073" by (simp only: power_Suc[symmetric]) simp
  then have "2 * (2 ^ 1073 * tiny) = 1" using tiny_scale by (simp only: mult.assoc)
  then show ?thesis by simp
qed

lemma tiny_pos: "0 < tiny"
  by (simp add: tiny_def)

lemma grid_sub_half:
  assumes "v \<in> grid" "1 / 2 < v" "v < 2 ^ 52"
  shows "v - 1 / 2 \<in> grid"
proof -
  obtain m k where v: "v = real_of_int m * 2 ^ k * tiny" "\<bar>m\<bar> \<le> 2 ^ 53" "k \<le> 2045"
    using assms(1) unfolding grid_def by blast
  have sp: "0 < (2::real) ^ k * tiny" using tiny_pos by simp
  have "0 < real_of_int m * (2 ^ k * tiny)" using assms(2) v(1) by (simp add: mult.assoc)
  then have "0 < real_of_int m" using sp by (simp add: zero_less_mult_iff)
  then have mpos: "0 < m" by simp
  show ?thesis
  proof (cases "k \<le> 1073")
    case True
    define j where "j = 1073 - k"
    have "(2::real) ^ 1073 = 2 ^ (j + k)" using True by (simp add: j_def)
    then have p: "(2::real) ^ 1073 = 2 ^ j * 2 ^ k" by (simp only: power_add)
    have h: "2 ^ j * (2 ^ k * tiny) = 1 / 2" using half_tiny p by (simp only: mult.assoc)
    have "real_of_int (m - 2 ^ j) * (2 ^ k * tiny)
            = real_of_int m * (2 ^ k * tiny) - 2 ^ j * (2 ^ k * tiny)"
      by (simp add: left_diff_distrib)
    then have e: "v - 1 / 2 = real_of_int (m - 2 ^ j) * 2 ^ k * tiny"
      using v(1) h by (simp only: mult.assoc)
    have "0 < real_of_int (m - 2 ^ j) * (2 ^ k * tiny)" using assms(2) e by (simp add: mult.assoc)
    then have "0 < real_of_int (m - 2 ^ j)" using sp by (simp add: zero_less_mult_iff)
    then have "0 < m - 2 ^ j" by (simp only: of_int_0_less_iff)
    moreover have "(0::int) < 2 ^ j" by simp
    ultimately have "\<bar>m - 2 ^ j\<bar> \<le> 2 ^ 53" using v(2) by linarith
    then show ?thesis using v(3) e by (rule gridI)
  next
    case False
    define j where "j = k - 1074"
    have "(2::real) ^ k = 2 ^ (j + 1074)" using False by (simp add: j_def)
    then have "(2::real) ^ k * tiny = 2 ^ j * (2 ^ 1074 * tiny)" by (simp only: power_add mult.assoc)
    then have kt: "(2::real) ^ k * tiny = 2 ^ j" by (simp only: tiny_scale mult_1_right)
    have vj: "v = real_of_int m * 2 ^ j" using v(1) kt by (simp only: mult.assoc)
    define m' where "m' = m * 2 ^ Suc j - 1"
    have r: "real_of_int m' = 2 * v - 1" by (simp add: m'_def vj)
    have "real_of_int m' * (2 ^ 1073 * tiny) = v - 1 / 2"
      unfolding half_tiny r by simp
    then have e: "v - 1 / 2 = real_of_int m' * 2 ^ 1073 * tiny" by (simp only: mult.assoc)
    have "0 < real_of_int m'" using r assms(2) by simp
    then have lo: "0 < m'" by (simp only: of_int_0_less_iff)
    have "real_of_int m' < 2 * 2 ^ 52" using r assms(3) by simp
    then have "real_of_int m' < real_of_int (2 ^ 53)" by simp
    then have "m' < 2 ^ 53" by (simp only: of_int_less_iff)
    then have "\<bar>m'\<bar> \<le> 2 ^ 53" using lo by simp
    moreover have "(1073::nat) \<le> 2045" by simp
    ultimately show ?thesis using e by (rule gridI)
  qed
qed

lemma fin_sub_half:
  assumes "is_double v" "1 / 2 < v" "v < 2 ^ 52"
  shows "fin (v - 1 / 2) = Fin (v - 1 / 2)"
proof (rule fin_exact)
  have "v - 1 / 2 \<in> grid" using assms by (intro grid_sub_half) (simp_all add: is_double_def)
  moreover have "\<bar>v - 1 / 2\<bar> < huge" using assms by (simp add: is_double_def abs_less_iff)
  ultimately show "is_double (v - 1 / 2)" by (simp add: is_double_def)
qed

lemma fin_nat_half:
  assumes "0 < n" "n < 2 ^ 52"
  shows "fin (real n - 1 / 2) = Fin (real n - 1 / 2)"
proof (rule fin_sub_half)
  show "is_double (real n)" using assms(2) by (intro is_double_nat) simp
  show "1 / 2 < real n" using assms(1) by simp
  show "real n < 2 ^ 52" using assms(2) by (metis of_nat_less_iff of_nat_numeral of_nat_power)
qed

section \<open>Every aggregate of a bounded list is returned\<close>

lemma qnt_unfold:
  assumes "avg (map Fin l) = Inr El" "pow2 El = Inr El2" "error s l El2 = Inr s1"
  shows "qnt s l q =
     (case q of
         Mean \<Rightarrow> Inr (El, s1)
       | Quantile q \<Rightarrow>
          (let l' = sort l; n = fin (real (length l')); nq = fmul n (Fin q) in
           if fle nq (Fin (1 / 2)) then ebind (pyget l' 0) (\<lambda>v. Inr (Fin v, s1))
           else if fle (fsub n (Fin (1 / 2))) nq
           then ebind (pyget l' (- 1)) (\<lambda>v. Inr (Fin v, s1))
           else
             ebind (py_int (fsub nq (Fin (1 / 2)))) (\<lambda>i.
             (let f = fsub (fsub nq (Fin (1 / 2))) (fin (real_of_int i)) in
              ebind (pyget l' i) (\<lambda>a.
              ebind (pyget l' (i + 1)) (\<lambda>b.
                Inr (fadd (fmul (Fin a) (fsub (Fin 1) f)) (fmul (Fin b) f), s1)))))))"
  by (simp add: qnt_def assms)

lemma quantile_returns:
  assumes "l \<noteq> []" "length l < 2 ^ 52"
  shows "\<exists>v.
          (let l' = sort l; n = fin (real (length l')); nq = fmul n (Fin q) in
           if fle nq (Fin (1 / 2)) then ebind (pyget l' 0) (\<lambda>v. Inr (Fin v, s1))
           else if fle (fsub n (Fin (1 / 2))) nq
           then ebind (pyget l' (- 1)) (\<lambda>v. Inr (Fin v, s1))
           else
             ebind (py_int (fsub nq (Fin (1 / 2)))) (\<lambda>i.
             (let f = fsub (fsub nq (Fin (1 / 2))) (fin (real_of_int i)) in
              ebind (pyget l' i) (\<lambda>a.
              ebind (pyget l' (i + 1)) (\<lambda>b.
                Inr (fadd (fmul (Fin a) (fsub (Fin 1) f)) (fmul (Fin b) f), s1)))))) = Inr (v, s1)"
proof -
  let ?l = "sort l"
  let ?n = "length l"
  have ne: "?l \<noteq> []" using assms(1) by (simp add: sort_Nil_iff)
  have n53: "?n \<le> 2 ^ 53" using assms(2) by simp
  have N: "fin (real ?n) = Fin (real ?n)" by (rule fin_nat[OF n53])
  have npos: "0 < ?n" using assms(1) by simp
  have H: "fsub (Fin (real ?n)) (Fin (1 / 2)) = Fin (real ?n - 1 / 2)"
    using fin_nat_half[OF npos assms(2)] by (simp add: fsub_def)
  have g0: "pyget ?l 0 = Inr (?l ! 0)" using assms(1) by (simp add: pyget_def)
  have g1: "pyget ?l (- 1) = Inr (last ?l)" by (rule pyget_last[OF ne])
  consider (inf) "fin (real ?n * q) = PInf" | (ninf) "fin (real ?n * q) = NInf"
    | (fin) v where "fin (real ?n * q) = Fin v" "is_double v"
    using fin_cases[of "real ?n * q"] by blast
  then show ?thesis
  proof cases
    case inf
    then show ?thesis by (simp add: N H g1 Let_def)
  next
    case ninf
    then show ?thesis by (simp add: N g0 Let_def)
  next
    case fin
    show ?thesis
    proof (cases "v \<le> 1 / 2")
      case True
      then show ?thesis using fin(1) by (simp add: N g0 Let_def)
    next
      case lo: False
      show ?thesis
      proof (cases "real ?n - 1 / 2 \<le> v")
        case True
        then show ?thesis using fin(1) lo by (simp add: N H g1 Let_def)
      next
        case hi: False
        have v52: "v < 2 ^ 52"
        proof -
          have "real ?n < 2 ^ 52" using assms(2)
            by (metis of_nat_less_iff of_nat_numeral of_nat_power)
          then show ?thesis using hi by simp
        qed
        have T: "fsub (Fin v) (Fin (1 / 2)) = Fin (v - 1 / 2)"
          using fin_sub_half[OF fin(2) _ v52] lo by (simp add: fsub_def)
        define i where "i = \<lfloor>v - 1 / 2\<rfloor>"
        have i0: "0 \<le> i" using lo by (simp add: i_def)
        have "real_of_int i \<le> v - 1 / 2" unfolding i_def by (rule of_int_floor_le)
        then have "real_of_int i < real ?n - 1" using hi by simp
        then have "real_of_int (i + 1) < real_of_int (int ?n)" by simp
        then have i1: "i + 1 < int ?n" by (simp only: of_int_less_iff)
        have P: "py_int (Fin (v - 1 / 2)) = Inr i" using lo by (simp add: i_def)
        have a: "pyget ?l i = Inr (?l ! nat i)" using i0 i1 by (simp add: pyget_def)
        have b: "pyget ?l (i + 1) = Inr (?l ! nat (i + 1))" using i0 i1 by (simp add: pyget_def)
        show ?thesis using fin(1) lo hi
          by (simp add: N H T a[unfolded i_def] b[unfolded i_def] Let_def)
      qed
    qed
  qed
qed

lemma qnt_returns:
  assumes "l \<noteq> []" "length l < 2 ^ 52" "\<forall>x\<in>set l. \<bar>x\<bar> \<le> 2 ^ 511"
  shows "\<exists>v s'. qnt s l q = Inr (v, s')"
proof -
  have n53: "length l \<le> 2 ^ 53" using assms(2) by simp
  obtain El where El: "avg (map Fin l) = Inr (Fin El)" "\<bar>El\<bar> \<le> 2 ^ 511"
    using avg_bounded[OF assms(1) n53 assms(3)] by blast
  obtain El2 where El2: "pow2 (Fin El) = Inr (Fin El2)" using pow2_bounded[OF El(2)] by blast
  obtain sq where sq: "mapM pow2 (map Fin l) = Inr sq" using mapM_pow2_bounded[OF assms(3)] by blast
  obtain s1 where s1: "error s l (Fin El2) = Inr s1" using error_returns[OF sq assms(1)] by blast
  show ?thesis
  proof (cases q)
    case Mean
    then show ?thesis by (simp add: qnt_unfold[OF El(1) El2 s1])
  next
    case (Quantile p)
    have "\<exists>v. qnt s l (Quantile p) = Inr (v, s1)"
      unfolding qnt_unfold[OF El(1) El2 s1] quantile.case
      by (rule quantile_returns[OF assms(1,2)])
    then show ?thesis unfolding Quantile by blast
  qed
qed

lemma points_loop_length:
  "points_loop s rows aggr l = Inr (res, s') \<Longrightarrow> length res = length l - 1"
proof (induction s rows aggr l arbitrary: res s' rule: points_loop.induct)
  case (1 s rows aggr a b l)
  from "1.prems" obtain xs x s1 ys y s2 res' s3 where
    st: "mapM (\<lambda>r. pyget r 0) (slice rows a b) = Inr xs" "qnt s xs Mean = Inr (x, s1)"
        "mapM (\<lambda>r. pyget r 1) (slice rows a b) = Inr ys" "qnt s1 ys aggr = Inr (y, s2)"
        "points_loop s2 rows aggr (b # l) = Inr (res', s3)" "res = (x, y) # res'"
    by (auto simp: ebind_eq_Inr Let_def)
  have "length res' = length (b # l) - 1"
    using "1.IH"[OF refl st(5)] .
  then show ?case using st(6) by simp
qed simp_all

lemma points_loop_frame:
  "points_loop s rows aggr l = Inr (res, s') \<Longrightarrow> heap s' = heap s \<and> g_nans s' = g_nans s"
proof (induction s rows aggr l arbitrary: res s' rule: points_loop.induct)
  case (1 s rows aggr a b l)
  from "1.prems" obtain xs x s1 ys y s2 res' s3 where
    st: "mapM (\<lambda>r. pyget r 0) (slice rows a b) = Inr xs" "qnt s xs Mean = Inr (x, s1)"
        "mapM (\<lambda>r. pyget r 1) (slice rows a b) = Inr ys" "qnt s1 ys aggr = Inr (y, s2)"
        "points_loop s2 rows aggr (b # l) = Inr (res', s3)" "res = (x, y) # res'" "s' = s3"
    by (auto simp: ebind_eq_Inr Let_def)
  have "heap s3 = heap s2 \<and> g_nans s3 = g_nans s2" using "1.IH"[OF refl st(5)] .
  then show ?case using qnt_frame[OF st(2)] qnt_frame[OF st(4)] st(7) by simp
qed simp_all

section \<open>The loop over the boundaries returns on bounded tables\<close>

lemma length_slice_le: "length (slice xs a b) \<le> length xs"
  by (simp add: slice_def)

lemma points_loop_total:
  assumes "sorted_wrt (<) l" "\<forall>a\<in>set l. a \<le> length rows"
    and "\<forall>r\<in>set rows. length r = 2 \<and> (\<forall>v\<in>set r. \<bar>v\<bar> \<le> 2 ^ 511)"
    and "length rows < 2 ^ 52"
  shows "\<exists>res s'. points_loop s rows aggr l = Inr (res, s')"
  using assms
proof (induction s rows aggr l rule: points_loop.induct)
  case (1 s rows aggr a b l)
  let ?xy = "slice rows a b"
  have ab: "a < b" "b \<le> length rows" using "1.prems"(1,2) by auto
  have ne: "?xy \<noteq> []" using ab by (simp add: slice_Nil_iff)
  have sub: "set ?xy \<subseteq> set rows" unfolding slice_def
    by (meson set_take_subset set_drop_subset subset_trans)
  have two: "\<And>r. r \<in> set ?xy \<Longrightarrow> length r = 2 \<and> (\<forall>v\<in>set r. \<bar>v\<bar> \<le> 2 ^ 511)"
    using sub "1.prems"(3) by blast
  have len: "length ?xy < 2 ^ 52"
    using length_slice_le[of rows a b] "1.prems"(4) by simp
  have m0: "mapM (\<lambda>r. pyget r 0) ?xy = Inr (map hd ?xy)"
  proof (rule mapM_map)
    fix r assume "r \<in> set ?xy"
    then have "r \<noteq> []" using two[of r] by auto
    then show "pyget r 0 = Inr (hd r)" by (rule pyget_0)
  qed
  have m1: "mapM (\<lambda>r. pyget r 1) ?xy = Inr (map (\<lambda>r. r ! 1) ?xy)"
  proof (rule mapM_map)
    fix r assume "r \<in> set ?xy"
    then show "pyget r 1 = Inr (r ! 1)" using two[of r] by (simp add: pyget_1)
  qed
  have b0: "\<forall>x\<in>set (map hd ?xy). \<bar>x\<bar> \<le> 2 ^ 511"
  proof
    fix x assume "x \<in> set (map hd ?xy)"
    then obtain r where r: "r \<in> set ?xy" "x = hd r" by auto
    then have "r \<noteq> []" using two[of r] by auto
    then have "hd r \<in> set r" by simp
    then show "\<bar>x\<bar> \<le> 2 ^ 511" using two[OF r(1)] r(2) by blast
  qed
  have b1: "\<forall>x\<in>set (map (\<lambda>r. r ! 1) ?xy). \<bar>x\<bar> \<le> 2 ^ 511"
  proof
    fix x assume "x \<in> set (map (\<lambda>r. r ! 1) ?xy)"
    then obtain r where r: "r \<in> set ?xy" "x = r ! 1" by auto
    then have "r ! 1 \<in> set r" using two[of r] by simp
    then show "\<bar>x\<bar> \<le> 2 ^ 511" using two[OF r(1)] r(2) by blast
  qed
  obtain x s1 where q0: "qnt s (map hd ?xy) Mean = Inr (x, s1)"
    using qnt_returns[of "map hd ?xy" s Mean] ne len b0 by auto
  obtain y s2 where q1: "qnt s1 (map (\<lambda>r. r ! 1) ?xy) aggr = Inr (y, s2)"
    using qnt_returns[of "map (\<lambda>r. r ! 1) ?xy" s1 aggr] ne len b1 by auto
  have "\<exists>res s'. points_loop s2 rows aggr (b # l) = Inr (res, s')"
    using "1.IH"[OF refl] "1.prems" by simp
  then obtain res' s3 where r: "points_loop s2 rows aggr (b # l) = Inr (res', s3)" by blast
  show ?case
    by (simp only: points_loop.simps Let_def m0 m1 q0 q1 r ebind_Inr prod.case) blast
qed simp_all

section \<open>Well-separated small values are kept apart\<close>

lemma is_double_numeral: "(numeral n :: int) \<le> 2 ^ 53 \<Longrightarrow> is_double (numeral n)"
  using is_double_int[of "numeral n"] by simp

lemma is_double_0 [simp]: "is_double 0"
  using is_double_int[of 0] by simp

lemma is_double_1 [simp]: "is_double 1"
  using is_double_int[of 1] by simp

lemma half_grid: "(1 / 2 :: real) \<in> grid"
  using grid_dyadic[of 1 1] by simp

lemma farenough_gap:
  assumes "is_double (x - y)" "is_double (x + y)" "1 \<le> \<bar>x - y\<bar>" "0 \<le> x + y" "x + y \<le> 100"
  shows "farenough x y"
proof -
  have h: "(1 / 2 :: real) < huge" using pow_less_huge[of 0] by simp
  have "\<bar>(x + y) / 200\<bar> \<le> 1 / 2" using assms(4,5) by simp
  then obtain r where r: "fin ((x + y) / 200) = Fin r" "\<bar>r\<bar> \<le> 1 / 2"
    using fin_bounded[OF half_grid h] by blast
  have l: "lit_1e_4 < 1 / 2" by (simp add: lit_1e_4_def)
  have c1: "r < \<bar>x - y\<bar>" using r(2) assms(3) by linarith
  have c2: "lit_1e_4 < \<bar>x - y\<bar>" using l assms(3) by linarith
  show ?thesis
    using r(1) c1 c2
    by (simp add: farenough_def fsub_def fin_exact[OF assms(1)] fin_exact[OF assms(2)] pymax_def)
qed

lemma far_1234:
  "farenough 2 1" "farenough 3 2" "farenough 4 3"
  by (rule farenough_gap; simp add: is_double_numeral)+

lemma coalesce_1234: "coalesce [1, 2, 3, 4] = Inr [1, 2, 3, 4]"
  by (simp add: coalesce_kept far_1234)

lemma coalesce_12: "coalesce [1, 2] = Inr [1, 2]"
  by (simp add: coalesce_kept far_1234)

lemma sort_rows4: "sort rows4 = [[1, 10], [2, 20], [3, 30], [4, 40]]"
  by code_simp

lemma bucketize_unfold:
  assumes "length (hdr (heap s ! self)) = 2"
  shows "bucketize B s self aggr =
     ebind (boundaries B (sort (data (heap s ! self))))
       (\<lambda>l. points_loop (s\<lparr>heap := (heap s)[self := (heap s ! self)\<lparr>data := sort (data (heap s ! self))\<rparr>]\<rparr>)
              (sort (data (heap s ! self))) aggr l)"
  using assms by (simp add: bucketize_def Let_def)

lemma bucketize_heap:
  assumes "bucketize B s self aggr = Inr (pts, s')"
  shows "heap s' = (heap s)[self := (heap s ! self)\<lparr>data := sort (data (heap s ! self))\<rparr>] \<and>
         g_nans s' = g_nans s"
proof -
  have h: "length (hdr (heap s ! self)) = 2"
    using assms by (auto simp: bucketize_def Let_def split: if_splits)
  from assms obtain l where
    "points_loop (s\<lparr>heap := (heap s)[self := (heap s ! self)\<lparr>data := sort (data (heap s ! self))\<rparr>]\<rparr>)
       (sort (data (heap s ! self))) aggr l = Inr (pts, s')"
    unfolding bucketize_unfold[OF h] by (auto simp: ebind_eq_Inr)
  from points_loop_frame[OF this] show ?thesis by simp
qed

lemma table_of_simps [simp]:
  "heap (table_of rows) \<noteq> []"
  "hdr (heap (table_of rows) ! 0) = [''x'', ''y'']"
  "data (heap (table_of rows) ! 0) = rows"
  by (simp_all add: table_of_def)

section \<open>Constructing a table from a header\<close>

lemma DB_init_header:
  "is_header h \<Longrightarrow> DB_init e h = Inr \<lparr>hdr = h, data = [], refile = None\<rparr>"
  by (cases h) (simp_all add: DB_init_def is_header_def pyget_def)

lemma new_DB_header:
  "is_header h \<Longrightarrow>
   new_DB e s h = Inr (length (heap s), s\<lparr>heap := heap s @ [\<lparr>hdr = h, data = [], refile = None\<rparr>]\<rparr>)"
  by (simp add: new_DB_def DB_init_header)

lemma new_DB_Inr:
  "new_DB e s h = Inr (a, s') \<Longrightarrow>
   a = length (heap s) \<and> (\<exists>db. s' = s\<lparr>heap := heap s @ [db]\<rparr>)"
  by (auto simp: new_DB_def ebind_eq_Inr)

lemma append_row_simps [simp]:
  "g_err (append_row s a y) = g_err s"
  "g_nans (append_row s a y) = g_nans s"
  "length (heap (append_row s a y)) = length (heap s)"
  by (simp_all add: append_row_def)

lemma append_row_nth:
  "heap (append_row s a y) ! b =
     (if b = a \<and> a < length (heap s) then (heap s ! a)\<lparr>data := data (heap s ! a) @ [y]\<rparr>
      else heap s ! b)"
  by (cases "a < length (heap s)")
    (auto simp: append_row_def nth_list_update list_update_beyond not_less)

lemma append_row_take:
  "n \<le> a \<Longrightarrow> take n (heap (append_row s a y)) = take n (heap s)"
  by (simp add: append_row_def)

section \<open>Indexing and projection\<close>

lemma list_index_first:
  "v \<in> set xs \<Longrightarrow> list_index xs v = Inr (first_index xs v)"
  by (induction xs) (auto simp: first_index_def)

lemma list_index_Inr:
  "list_index xs v = Inr i \<Longrightarrow> v \<in> set xs \<and> i = first_index xs v"
proof (induction xs arbitrary: i)
  case Nil
  then show ?case by simp
next
  case (Cons x xs)
  show ?case
  proof (cases "x = v")
    case True
    then show ?thesis using Cons.prems by (simp add: first_index_def)
  next
    case False
    then obtain j where j: "list_index xs v = Inr j" "i = Suc j"
      using Cons.prems by (auto simp: ebind_eq_Inr)
    then show ?thesis using Cons.IH[OF j(1)] False by (simp add: first_index_def)
  qed
qed

lemma first_index_less: "v \<in> set xs \<Longrightarrow> first_index xs v < length xs"
  unfolding first_index_def
  by (metis (mono_tags, lifting) length_takeWhile_le le_neq_implies_less
      takeWhile_eq_all_conv takeWhile_eq_take take_all)

lemma first_index_nth: "v \<in> set xs \<Longrightarrow> xs ! first_index xs v = v"
  unfolding first_index_def
  by (metis (mono_tags, lifting) first_index_def first_index_less nth_length_takeWhile)

lemma mapM_list_index:
  "set vs \<subseteq> set xs \<Longrightarrow> mapM (list_index xs) vs = Inr (map (first_index xs) vs)"
  by (intro mapM_map) (auto simp: list_index_first)

lemma mapM_pyget_proj:
  "\<forall>c\<in>set cs. c < length r \<Longrightarrow> mapM (\<lambda>c. pyget r (int c)) cs = Inr (proj cs r)"
  unfolding proj_def by (intro mapM_map) (simp add: pyget_nat)

lemma mapM_pyget_Inr:
  "mapM (\<lambda>c. pyget r (int c)) cs = Inr x \<Longrightarrow> x = proj cs r \<and> (\<forall>c\<in>set cs. c < length r)"
proof (induction cs arbitrary: x)
  case Nil
  then show ?case by (simp add: proj_def)
next
  case (Cons c cs)
  then obtain v vs where v: "pyget r (int c) = Inr v" "mapM (\<lambda>c. pyget r (int c)) cs = Inr vs"
      "x = v # vs"
    by (auto simp: ebind_eq_Inr)
  show ?case using Cons.IH[OF v(2)] v(1,3) by (auto simp: proj_def pyget_Inr_nat)
qed

lemma unsplit_proj:
  assumes "length r = n" "\<forall>c\<in>set cols. c < n"
    and "ncol = filter (\<lambda>i. i \<notin> set cols) [0..<n]"
  shows "unsplit n cols ncol (proj cols r) (proj ncol r) = r"
proof (rule nth_equalityI)
  show "length (unsplit n cols ncol (proj cols r) (proj ncol r)) = length r"
    using assms(1) by (simp add: unsplit_def)
next
  fix i assume "i < length (unsplit n cols ncol (proj cols r) (proj ncol r))"
  then have i: "i < n" by (simp add: unsplit_def)
  show "unsplit n cols ncol (proj cols r) (proj ncol r) ! i = r ! i"
  proof (cases "i \<in> set cols")
    case True
    have "proj cols r ! first_index cols i = r ! (cols ! first_index cols i)"
      using first_index_less[OF True] by (simp add: proj_def)
    then show ?thesis using i True first_index_nth[OF True] by (simp add: unsplit_def)
  next
    case False
    then have m: "i \<in> set ncol" using i assms(3) by simp
    have "proj ncol r ! first_index ncol i = r ! (ncol ! first_index ncol i)"
      using first_index_less[OF m] by (simp add: proj_def)
    then show ?thesis using i False first_index_nth[OF m] by (simp add: unsplit_def)
  qed
qed

section \<open>Split: what the loop leaves untouched\<close>

lemma split_loop_frame:
  "split_loop e cols ncol hdrs rs (sets, d, s) = Inr (sets', d', s') \<Longrightarrow>
   n0 \<le> length (heap s) \<Longrightarrow> \<forall>p\<in>set d. n0 \<le> snd p \<Longrightarrow>
   take n0 (heap s') = take n0 (heap s) \<and> g_err s' = g_err s \<and> g_nans s' = g_nans s \<and>
   length (heap s) \<le> length (heap s')"
proof (induction rs arbitrary: sets d s)
  case Nil
  then show ?case by simp
next
  case (Cons r rs)
  from Cons.prems(1) obtain x y a d1 s1 where
    st: "mapM (\<lambda>c. pyget r (int c)) cols = Inr x" "mapM (\<lambda>c. pyget r (int c)) ncol = Inr y"
        "(case map_of d x of Some a \<Rightarrow> Inr (a, d, s)
          | None \<Rightarrow> ebind (new_DB e s hdrs) (\<lambda>(a, s'). Inr (a, d @ [(x, a)], s'))) = Inr (a, d1, s1)"
        "split_loop e cols ncol hdrs rs
           (map (\<lambda>(v, st). List.insert v st) (zip x sets), d1, append_row s1 a y) = Inr (sets', d', s')"
    by (auto simp: ebind_eq_Inr)
  have step: "n0 \<le> a \<and> (\<forall>p\<in>set d1. n0 \<le> snd p) \<and> take n0 (heap s1) = take n0 (heap s) \<and>
              g_err s1 = g_err s \<and> g_nans s1 = g_nans s \<and> length (heap s) \<le> length (heap s1)"
  proof (cases "map_of d x")
    case None
    then obtain s2 where n: "new_DB e s hdrs = Inr (a, s2)" "d1 = d @ [(x, a)]" "s1 = s2"
      using st(3) by (auto simp: ebind_eq_Inr)
    from new_DB_Inr[OF n(1)] obtain db where
      a: "a = length (heap s)" and s2: "s2 = s\<lparr>heap := heap s @ [db]\<rparr>" by blast
    show ?thesis using Cons.prems(2,3) n(2,3) a s2 by auto
  next
    case (Some b)
    then have "a = b" "d1 = d" "s1 = s" using st(3) by simp_all
    moreover have "(x, b) \<in> set d" using Some by (rule map_of_SomeD)
    ultimately show ?thesis using Cons.prems(3) by auto
  qed
  have ih: "take n0 (heap s') = take n0 (heap (append_row s1 a y)) \<and>
            g_err s' = g_err (append_row s1 a y) \<and> g_nans s' = g_nans (append_row s1 a y) \<and>
            length (heap (append_row s1 a y)) \<le> length (heap s')"
    using Cons.IH[OF st(4)] step Cons.prems(2) by simp
  show ?case using ih step by (simp add: append_row_take)
qed

section \<open>Split: what the loop builds\<close>

lemma split_step:
  assumes inv: "split_inv cols ncol hdrs n0 done d s"
    and hd: "is_header hdrs"
  obtains a d1 s1 where
    "(case map_of d (proj cols r) of Some a \<Rightarrow> Inr (a, d, s)
      | None \<Rightarrow> ebind (new_DB e s hdrs) (\<lambda>(a, s'). Inr (a, d @ [(proj cols r, a)], s')))
       = Inr (a, d1, s1)"
    "split_inv cols ncol hdrs n0 (done @ [r]) d1 (append_row s1 a (proj ncol r))"
proof -
  let ?x = "proj cols r" and ?y = "proj ncol r"
  note i = inv[unfolded split_inv_def list_all_iff]
  have n0: "n0 \<le> length (heap s)" and df: "distinct (map fst d)" and ds: "distinct (map snd d)"
    and keys: "fst ` set d = proj cols ` set done"
    using i by simp_all
  have ent: "n0 \<le> a \<and> a < length (heap s) \<and> hdr (heap s ! a) = hdrs \<and>
             data (heap s ! a) = map (proj ncol) (filter (\<lambda>r. proj cols r = x) done)"
    if "(x, a) \<in> set d" for x a
    using i that by auto
  show ?thesis
  proof (cases "map_of d ?x")
    case (Some a)
    have mem: "(?x, a) \<in> set d" using Some by (rule map_of_SomeD)
    let ?s' = "append_row s a ?y"
    have e: "list_all (\<lambda>(x', a'). n0 \<le> a' \<and> a' < length (heap ?s') \<and> hdr (heap ?s' ! a') = hdrs \<and>
                 data (heap ?s' ! a') =
                   map (proj ncol) (filter (\<lambda>r. proj cols r = x') (done @ [r]))) d"
      unfolding list_all_iff
    proof (intro ballI, clarify)
      fix x' a' assume m: "(x', a') \<in> set d"
      note c = ent[OF m] ent[OF mem]
      show "n0 \<le> a' \<and> a' < length (heap ?s') \<and> hdr (heap ?s' ! a') = hdrs \<and>
            data (heap ?s' ! a') = map (proj ncol) (filter (\<lambda>r. proj cols r = x') (done @ [r]))"
      proof (cases "a' = a")
        case True
        then have "x' = ?x" using m mem ds
          by (metis distinct_map inj_onD prod.collapse prod.inject snd_conv fst_conv)
        then show ?thesis using c True by (simp add: append_row_nth)
      next
        case False
        then have "x' \<noteq> ?x" using m mem df
          by (metis Some map_of_is_SomeI option.inject)
        then show ?thesis using c False by (simp add: append_row_nth)
      qed
    qed
    have k: "fst ` set d = proj cols ` set (done @ [r])"
      using keys mem by force
    have "split_inv cols ncol hdrs n0 (done @ [r]) d ?s'"
      unfolding split_inv_def using n0 df ds e k by simp
    then show ?thesis using that[of a d s] Some by simp
  next
    case None
    let ?a = "length (heap s)"
    let ?s1 = "s\<lparr>heap := heap s @ [\<lparr>hdr = hdrs, data = [], refile = None\<rparr>]\<rparr>"
    let ?d1 = "d @ [(?x, ?a)]"
    let ?s' = "append_row ?s1 ?a ?y"
    have nk: "?x \<notin> fst ` set d" using None by (simp add: map_of_eq_None_iff)
    then have "\<forall>r'\<in>set done. proj cols r' \<noteq> ?x"
      using keys by (metis imageI)
    then have emp: "filter (\<lambda>r. proj cols r = ?x) done = []"
      by (simp add: filter_empty_conv)
    have na: "?a \<notin> snd ` set d" using ent by fastforce
    have e: "list_all (\<lambda>(x', a'). n0 \<le> a' \<and> a' < length (heap ?s') \<and> hdr (heap ?s' ! a') = hdrs \<and>
                 data (heap ?s' ! a') =
                   map (proj ncol) (filter (\<lambda>r. proj cols r = x') (done @ [r]))) ?d1"
      unfolding list_all_iff
    proof (intro ballI, clarify)
      fix x' a' assume m: "(x', a') \<in> set ?d1"
      show "n0 \<le> a' \<and> a' < length (heap ?s') \<and> hdr (heap ?s' ! a') = hdrs \<and>
            data (heap ?s' ! a') = map (proj ncol) (filter (\<lambda>r. proj cols r = x') (done @ [r]))"
      proof (cases "(x', a') \<in> set d")
        case True
        note c = ent[OF True]
        have "a' \<noteq> ?a" using c by simp
        moreover have "x' \<noteq> ?x" using True nk by force
        ultimately show ?thesis using c by (simp add: append_row_nth nth_append)
      next
        case False
        then have "x' = ?x" "a' = ?a" using m by simp_all
        then show ?thesis using n0 emp by (simp add: append_row_nth nth_append)
      qed
    qed
    have k: "fst ` set ?d1 = proj cols ` set (done @ [r])"
      using keys by auto
    have "split_inv cols ncol hdrs n0 (done @ [r]) ?d1 ?s'"
      unfolding split_inv_def using n0 df ds e k nk na by simp
    then show ?thesis using that[of ?a ?d1 ?s1] None new_DB_header[OF hd, of e s] by simp
  qed
qed

lemma split_loop_total:
  assumes "split_inv cols ncol hdrs n0 done d s" "is_header hdrs"
    and "\<forall>r\<in>set rs. \<forall>c\<in>set cols \<union> set ncol. c < length r"
  shows "\<exists>sets' d' s'. split_loop e cols ncol hdrs rs (sets, d, s) = Inr (sets', d', s') \<and>
           split_inv cols ncol hdrs n0 (done @ rs) d' s'"
  using assms
proof (induction rs arbitrary: sets d s "done")
  case Nil
  then show ?case by simp
next
  case (Cons r rs)
  have x: "mapM (\<lambda>c. pyget r (int c)) cols = Inr (proj cols r)"
    and y: "mapM (\<lambda>c. pyget r (int c)) ncol = Inr (proj ncol r)"
    using Cons.prems(3) by (simp_all add: mapM_pyget_proj)
  obtain a d1 s1 where st:
    "(case map_of d (proj cols r) of Some a \<Rightarrow> Inr (a, d, s)
      | None \<Rightarrow> ebind (new_DB e s hdrs) (\<lambda>(a, s'). Inr (a, d @ [(proj cols r, a)], s')))
       = Inr (a, d1, s1)"
    "split_inv cols ncol hdrs n0 (done @ [r]) d1 (append_row s1 a (proj ncol r))"
    using split_step[OF Cons.prems(1,2), where r = r and e = e] by blast
  have "\<exists>sets' d' s'. split_loop e cols ncol hdrs rs
          (map (\<lambda>(v, st). List.insert v st) (zip (proj cols r) sets), d1,
           append_row s1 a (proj ncol r)) = Inr (sets', d', s') \<and>
        split_inv cols ncol hdrs n0 ((done @ [r]) @ rs) d' s'"
    using Cons.IH[OF st(2) Cons.prems(2)] Cons.prems(3) by simp
  then show ?case by (simp add: x y st(1))
qed

lemma mset_concat_filter_keys:
  "distinct ks \<Longrightarrow>
   mset (concat (map (\<lambda>k. filter (\<lambda>r. f r = k) xs) ks)) = filter_mset (\<lambda>r. f r \<in> set ks) (mset xs)"
proof (induction ks)
  case Nil
  then show ?case by simp
next
  case (Cons k ks)
  have "filter_mset (\<lambda>r. f r = k) (mset xs) + filter_mset (\<lambda>r. f r \<in> set ks) (mset xs)
        = filter_mset (\<lambda>r. f r \<in> set (k # ks)) (mset xs)"
    using Cons.prems by (intro multiset_eqI) auto
  then show ?case using Cons by simp
qed

lemma proj_upt: "length r = n \<Longrightarrow> proj [0..<n] r = r"
  by (auto simp: proj_def intro: nth_equalityI)

lemma proj_filter_distinct:
  assumes "distinct h" "set vars \<subseteq> set h"
  shows "proj (filter (\<lambda>i. i \<notin> set (map (first_index h) vars)) [0..<length h]) h
         = filter (\<lambda>v. v \<notin> set vars) h"
proof -
  have iff: "i \<in> set (map (first_index h) vars) \<longleftrightarrow> h ! i \<in> set vars" if "i < length h" for i
  proof
    assume "i \<in> set (map (first_index h) vars)"
    then obtain v where v: "v \<in> set vars" "i = first_index h v" by auto
    then have "h ! i = v" using assms(2) first_index_nth by fastforce
    then show "h ! i \<in> set vars" using v(1) by simp
  next
    assume m: "h ! i \<in> set vars"
    have "h ! i \<in> set h" using that by simp
    then have "h ! first_index h (h ! i) = h ! i" "first_index h (h ! i) < length h"
      by (simp_all add: first_index_nth first_index_less)
    then have "first_index h (h ! i) = i"
      using assms(1) that by (simp add: nth_eq_iff_index_eq)
    then show "i \<in> set (map (first_index h) vars)" using m by force
  qed
  have "filter (\<lambda>i. i \<notin> set (map (first_index h) vars)) [0..<length h]
        = filter (\<lambda>i. h ! i \<notin> set vars) [0..<length h]"
    using iff by (intro filter_cong) auto
  then have "proj (filter (\<lambda>i. i \<notin> set (map (first_index h) vars)) [0..<length h]) h
             = map (\<lambda>i. h ! i) (filter ((\<lambda>v. v \<notin> set vars) \<circ> (\<lambda>i. h ! i)) [0..<length h])"
    by (simp add: proj_def comp_def)
  also have "\<dots> = filter (\<lambda>v. v \<notin> set vars) (map (\<lambda>i. h ! i) [0..<length h])"
    by (simp only: filter_map)
  also have "\<dots> = filter (\<lambda>v. v \<notin> set vars) h" by (simp add: map_nth)
  finally show ?thesis .
qed

lemma split_complete_aux:
  assumes self: "self < length (heap s)"
    and db: "db = heap s ! self"
    and len: "\<forall>r\<in>set (data db). length r = length (hdr db)"
    and vars: "set vars \<subseteq> set (hdr db)"
    and cols: "cols = map (first_index (hdr db)) vars"
    and ncol: "ncol = filter (\<lambda>i. i \<notin> set cols) [0..<length (hdr db)]"
    and hd: "vars = [] \<or> is_header (proj ncol (hdr db))"
  shows "\<exists>sets d s'. split e s self vars = Inr ((sets, d), s') \<and>
           distinct (map fst d) \<and>
           list_all (\<lambda>(x, a). a < length (heap s') \<and>
                      hdr (heap s' ! a) = proj ncol (hdr db) \<and>
                      data (heap s' ! a) =
                        map (proj ncol) (filter (\<lambda>r. proj cols r = x) (data db))) d \<and>
           mset (concat (map (\<lambda>(x, a). map (unsplit (length (hdr db)) cols ncol x)
                                          (data (heap s' ! a))) d)) = mset (data db)"
proof -
  let ?n = "length (hdr db)"
  have cl: "\<forall>c\<in>set cols. c < ?n"
    using vars first_index_less unfolding cols by fastforce
  have nl: "\<forall>c\<in>set ncol. c < ?n" unfolding ncol by simp
  have un: "unsplit ?n cols ncol (proj cols r) (proj ncol r) = r" if "r \<in> set (data db)" for r
    using len that cl ncol by (intro unsplit_proj) auto
  have key: "mset (concat (map (\<lambda>(x, a). map (unsplit ?n cols ncol x) (data (heap s' ! a))) d))
             = mset (data db)"
    if df: "distinct (map fst d)"
      and la: "list_all (\<lambda>(x, a). a < length (heap s') \<and> hdr (heap s' ! a) = proj ncol (hdr db) \<and>
                 data (heap s' ! a) = map (proj ncol) (filter (\<lambda>r. proj cols r = x) (data db))) d"
      and ks: "proj cols ` set (data db) \<subseteq> fst ` set d"
    for d :: "(real list \<times> nat) list" and s' :: state
  proof -
    have "map (\<lambda>(x, a). map (unsplit ?n cols ncol x) (data (heap s' ! a))) d
          = map (\<lambda>k. filter (\<lambda>r. proj cols r = k) (data db)) (map fst d)"
    proof (simp only: map_map, rule map_cong[OF refl], clarify)
      fix x a assume m: "(x, a) \<in> set d"
      then have dt: "data (heap s' ! a) = map (proj ncol) (filter (\<lambda>r. proj cols r = x) (data db))"
        using la by (auto simp: list_all_iff)
      have "map (unsplit ?n cols ncol x) (map (proj ncol) (filter (\<lambda>r. proj cols r = x) (data db)))
            = map (\<lambda>r. r) (filter (\<lambda>r. proj cols r = x) (data db))"
        unfolding map_map by (rule map_cong[OF refl]) (use un in auto)
      then show "map (unsplit ?n cols ncol x) (data (heap s' ! a))
                 = ((\<lambda>k. filter (\<lambda>r. proj cols r = k) (data db)) \<circ> fst) (x, a)"
        unfolding dt by simp
    qed
    then have "mset (concat (map (\<lambda>(x, a). map (unsplit ?n cols ncol x) (data (heap s' ! a))) d))
               = mset (concat (map (\<lambda>k. filter (\<lambda>r. proj cols r = k) (data db)) (map fst d)))"
      by (simp only:)
    also have "\<dots> = filter_mset (\<lambda>r. proj cols r \<in> set (map fst d)) (mset (data db))"
      by (rule mset_concat_filter_keys[OF df])
    also have "\<dots> = mset (data db)"
    proof (rule multiset_eqI)
      fix r
      show "count (filter_mset (\<lambda>r. proj cols r \<in> set (map fst d)) (mset (data db))) r
            = count (mset (data db)) r"
      proof (cases "r \<in> set (data db)")
        case True
        then have "proj cols r \<in> set (map fst d)" using ks by auto
        then show ?thesis by simp
      next
        case False
        then show ?thesis by (simp add: count_eq_zero_iff)
      qed
    qed
    finally show ?thesis .
  qed
  show ?thesis
  proof (cases "vars = []")
    case True
    then have c: "cols = []" "ncol = [0..<?n]" using cols ncol by simp_all
    have r: "split e s self vars = Inr (([], [([], self)]), s)" using True by (simp add: split_def)
    have p: "map (proj ncol) (filter (\<lambda>r. proj cols r = []) (data db)) = data db"
    proof -
      have "filter (\<lambda>r. proj cols r = []) (data db) = data db" by (simp add: c proj_def)
      moreover have "map (proj ncol) (data db) = map (\<lambda>r. r) (data db)"
        unfolding c using len by (intro map_cong[OF refl]) (simp add: proj_upt)
      ultimately show ?thesis by simp
    qed
    have h: "proj ncol (hdr db) = hdr db" unfolding c by (simp add: proj_upt)
    have la: "list_all (\<lambda>(x, a). a < length (heap s) \<and> hdr (heap s ! a) = proj ncol (hdr db) \<and>
                 data (heap s ! a) = map (proj ncol) (filter (\<lambda>r. proj cols r = x) (data db)))
               [([], self)]"
      using self db p h by simp
    have d1: "distinct (map fst [([] :: real list, self)])" by simp
    have "mset (concat (map (\<lambda>(x, a). map (unsplit ?n cols ncol x) (data (heap s ! a))) [([], self)]))
          = mset (data db)"
      by (rule key[OF d1 la]) (auto simp: c proj_def)
    then show ?thesis using r la d1 by blast
  next
    case False
    then have hd': "is_header (proj ncol (hdr db))" using hd by simp
    have inv0: "split_inv cols ncol (proj ncol (hdr db)) (length (heap s)) [] [] s"
      by (simp add: split_inv_def)
    have rows: "\<forall>r\<in>set (data db). \<forall>c\<in>set cols \<union> set ncol. c < length r"
      using len cl nl by auto
    obtain sets' d' s' where
      sl: "split_loop e cols ncol (proj ncol (hdr db)) (data db) (map (\<lambda>c. []) cols, [], s)
             = Inr (sets', d', s')"
      and inv: "split_inv cols ncol (proj ncol (hdr db)) (length (heap s)) ([] @ data db) d' s'"
      using split_loop_total[OF inv0 hd' rows, of e "map (\<lambda>c. []) cols"] by blast
    have r: "split e s self vars = Inr ((map sort sets', d'), s')"
      using False vars sl
      by (simp add: split_def db[symmetric] mapM_list_index cols[symmetric] Let_def
          ncol[symmetric] proj_def[symmetric])
    note i = inv[unfolded split_inv_def, simplified]
    have df: "distinct (map fst d')" using i by simp
    have la: "list_all (\<lambda>(x, a). a < length (heap s') \<and> hdr (heap s' ! a) = proj ncol (hdr db) \<and>
                 data (heap s' ! a) = map (proj ncol) (filter (\<lambda>r. proj cols r = x) (data db))) d'"
      using i by (auto simp: list_all_iff)
    have ks: "proj cols ` set (data db) \<subseteq> fst ` set d'" using i by simp
    show ?thesis using r df la key[OF df la ks] by blast
  qed
qed

section \<open>Split completeness\<close>


lemma split_kx:
  "split env0 (state0\<lparr>heap := [table_kx]\<rparr>) 0 [''k''] =
     Inr (([[1, 2]], [([1], 1), ([2], 2)]),
          state0\<lparr>heap := [table_kx,
                          \<lparr>hdr = [''x''], data = [[10], [30]], refile = None\<rparr>,
                          \<lparr>hdr = [''x''], data = [[20]], refile = None\<rparr>]\<rparr>)"
  by code_simp



section \<open>Filter: the loops in closed form\<close>

lemma append_row_append_row_data:
  assumes "res < length (heap s)"
  shows "append_row s res r =
         s\<lparr>heap := (heap s)[res := (heap s ! res)\<lparr>data := data (heap s ! res) @ [r]\<rparr>]\<rparr>"
  by (simp add: append_row_def)

lemma filter_loop_Inr:
  assumes "filter_loop test res rows s = Inr s'" "res < length (heap s)"
  shows "s' = s\<lparr>heap := (heap s)[res := (heap s ! res)
                     \<lparr>data := data (heap s ! res) @ filter (\<lambda>r. test r = Inr True) rows\<rparr>]\<rparr> \<and>
         (\<forall>r\<in>set rows. \<exists>b. test r = Inr b)"
  using assms
proof (induction rows arbitrary: s)
  case Nil
  then show ?case by simp
next
  case (Cons r rows)
  from Cons.prems(1) obtain b where b: "test r = Inr b"
    and l: "filter_loop test res rows (if b then append_row s res r else s) = Inr s'"
    by (auto simp: ebind_eq_Inr)
  show ?case
  proof (cases b)
    case True
    have len: "res < length (heap (append_row s res r))" using Cons.prems(2) by simp
    have ih: "s' = (append_row s res r)\<lparr>heap := (heap (append_row s res r))[res :=
                 (heap (append_row s res r) ! res)\<lparr>data := data (heap (append_row s res r) ! res)
                     @ filter (\<lambda>r. test r = Inr True) rows\<rparr>]\<rparr>"
      and all: "\<forall>r\<in>set rows. \<exists>b. test r = Inr b"
      using Cons.IH[OF _ len] l True by simp_all
    show ?thesis using ih all b True Cons.prems(2)
      by (auto simp: append_row_def)
  next
    case False
    then show ?thesis using Cons.IH[OF _ Cons.prems(2)] l b by auto
  qed
qed

lemma filter_loop_total:
  assumes "\<forall>r\<in>set rows. \<exists>b. test r = Inr b" "res < length (heap s)"
  shows "filter_loop test res rows s =
         Inr (s\<lparr>heap := (heap s)[res := (heap s ! res)
                     \<lparr>data := data (heap s ! res) @ filter (\<lambda>r. test r = Inr True) rows\<rparr>]\<rparr>)"
  using assms
proof (induction rows arbitrary: s)
  case Nil
  then show ?case by simp
next
  case (Cons r rows)
  obtain b where b: "test r = Inr b" using Cons.prems(1) by auto
  have rest: "\<forall>r\<in>set rows. \<exists>b. test r = Inr b" using Cons.prems(1) by simp
  show ?case
  proof (cases b)
    case True
    have len: "res < length (heap (append_row s res r))" using Cons.prems(2) by simp
    show ?thesis using Cons.IH[OF rest len] b True Cons.prems(2)
      by (simp add: append_row_def)
  next
    case False
    then show ?thesis using Cons.IH[OF rest Cons.prems(2)] b by simp
  qed
qed

lemma DB_init_nonempty: "DB_init e h = Inr db \<Longrightarrow> h \<noteq> []"
  by (cases h) (auto simp: DB_init_def pyget_def)

lemma new_DB_nonempty: "new_DB e s h = Inr (a, s') \<Longrightarrow> h \<noteq> []"
  by (auto simp: new_DB_def ebind_eq_Inr dest: DB_init_nonempty)

section \<open>Filter without projection\<close>

lemma filter_db_plain:
  assumes "filters \<noteq> []" "is_header (hdr (heap s ! self))"
  shows "filter_db e s self filters None =
     ebind (compile_all filters (hdr (heap s ! self))) (\<lambda>test.
       ebind (filter_loop test (length (heap s)) (data (heap s ! self))
                (s\<lparr>heap := heap s @ [\<lparr>hdr = hdr (heap s ! self), data = [], refile = None\<rparr>]\<rparr>))
         (\<lambda>s2. Inr (length (heap s), s2)))"
  using assms by (simp add: filter_db_def Let_def new_DB_header)

lemma filter_idempotent_aux:
  assumes self: "self < length (heap s)"
    and hd: "filters = [] \<or> \<not> is_txt (hd (hdr (heap s ! self)))"
    and r1: "filter_db e s self filters None = Inr (a1, s1)"
  shows "\<exists>a2 s2. filter_db e s1 a1 filters None = Inr (a2, s2) \<and>
           data (heap s2 ! a2) = data (heap s1 ! a1) \<and>
           hdr (heap s2 ! a2) = hdr (heap s1 ! a1)"
proof (cases "filters = []")
  case True
  then have "a1 = self" "s1 = s" using r1 by (simp_all add: filter_db_def Let_def)
  then show ?thesis using r1 by auto
next
  case False
  let ?db = "heap s ! self"
  let ?P = "\<lambda>t r. t r = Inr True"
  from r1 False obtain test a s' where
    c: "compile_all filters (hdr ?db) = Inr test" and n: "new_DB e s (hdr ?db) = Inr (a, s')"
    by (auto simp: filter_db_def Let_def ebind_eq_Inr split: if_splits)
  have hdr: "is_header (hdr ?db)"
    using new_DB_nonempty[OF n] hd False by (simp add: is_header_def)
  let ?n = "length (heap s)"
  let ?s' = "s\<lparr>heap := heap s @ [\<lparr>hdr = hdr ?db, data = [], refile = None\<rparr>]\<rparr>"
  from r1 have fl: "filter_loop test ?n (data ?db) ?s' = Inr s1" and a1: "a1 = ?n"
    unfolding filter_db_plain[OF False hdr] c by (auto simp: ebind_eq_Inr)
  have ln: "?n < length (heap ?s')" by simp
  note cf = filter_loop_Inr[OF fl ln]
  have h1: "heap s1 = heap s @ [\<lparr>hdr = hdr ?db, data = filter (?P test) (data ?db), refile = None\<rparr>]"
    using cf by simp
  have db1: "heap s1 ! a1 = \<lparr>hdr = hdr ?db, data = filter (?P test) (data ?db), refile = None\<rparr>"
    unfolding h1 a1 by simp
  have hdr1: "is_header (hdr (heap s1 ! a1))" using hdr db1 by simp
  let ?n1 = "length (heap s1)"
  let ?s1' = "s1\<lparr>heap := heap s1 @ [\<lparr>hdr = hdr ?db, data = [], refile = None\<rparr>]\<rparr>"
  have all: "\<forall>r\<in>set (filter (?P test) (data ?db)). \<exists>b. test r = Inr b" by auto
  have ln1: "?n1 < length (heap ?s1')" by simp
  note t = filter_loop_total[OF all ln1]
  have r2: "filter_db e s1 a1 filters None = Inr (?n1,
      ?s1'\<lparr>heap := (heap ?s1')[?n1 := (heap ?s1' ! ?n1)
              \<lparr>data := data (heap ?s1' ! ?n1) @ filter (?P test) (filter (?P test) (data ?db))\<rparr>]\<rparr>)"
    unfolding filter_db_plain[OF False hdr1] db1 using c t by simp
  show ?thesis unfolding r2 db1 by simp
qed

section \<open>Filter idempotence\<close>


lemma filter_kx:
  "filter_db env0 (state0\<lparr>heap := [table_kx]\<rparr>) 0 [filter_k] None =
     Inr (1, state0\<lparr>heap := [table_kx,
                \<lparr>hdr = [''k'', ''x''], data = [[1, 10], [1, 30]], refile = None\<rparr>]\<rparr>)"
  by code_simp


section \<open>What the table operations leave unchanged\<close>

lemma filter_loop_frame:
  "filter_loop test res rows s = Inr s' \<Longrightarrow> n0 \<le> res \<Longrightarrow>
   take n0 (heap s') = take n0 (heap s)"
proof (induction rows arbitrary: s)
  case Nil
  then show ?case by simp
next
  case (Cons r rows)
  from Cons.prems(1) obtain b where
    l: "filter_loop test res rows (if b then append_row s res r else s) = Inr s'"
    by (auto simp: ebind_eq_Inr)
  show ?case using Cons.IH[OF l Cons.prems(2)] Cons.prems(2)
    by (simp add: append_row_take split: if_splits)
qed

lemma project_loop_frame:
  "project_loop test cols res rows s = Inr s' \<Longrightarrow> n0 \<le> res \<Longrightarrow>
   take n0 (heap s') = take n0 (heap s)"
proof (induction rows arbitrary: s)
  case Nil
  then show ?case by simp
next
  case (Cons r rows)
  from Cons.prems(1) obtain b where b: "test r = Inr b"
    and l: "(if b then
         (let s1 = s\<lparr>g_nans := (fst (g_nans s), snd (g_nans s) + 1)\<rparr> in
          ebind (mapM (\<lambda>c. pyget r (int c)) cols) (\<lambda>l.
            project_loop test cols res rows
              (if isnum l then append_row s1 res l
               else s1\<lparr>g_nans := (fst (g_nans s1) + 1, snd (g_nans s1))\<rparr>)))
       else project_loop test cols res rows s) = Inr s'"
    by (auto simp: ebind_eq_Inr)
  show ?case
  proof (cases b)
    case True
    then obtain l0 where
      p: "project_loop test cols res rows
            (append_row (s\<lparr>g_nans := (fst (g_nans s), snd (g_nans s) + 1)\<rparr>) res l0) = Inr s'"
      using l by (auto simp: Let_def ebind_eq_Inr isnum_def)
    show ?thesis using Cons.IH[OF p Cons.prems(2)] Cons.prems(2)
      by (simp add: append_row_take)
  next
    case False
    then show ?thesis using Cons.IH[OF _ Cons.prems(2)] l by simp
  qed
qed

lemma take_all_nth:
  "take (length xs) ys = take (length xs) xs \<Longrightarrow> a < length xs \<Longrightarrow> ys ! a = xs ! a"
  by (metis nth_take)

lemma split_frame:
  assumes "split e s self vars = Inr (r, s')" "a < length (heap s)"
  shows "heap s' ! a = heap s ! a"
proof (cases "vars = []")
  case True
  then show ?thesis using assms(1) by (simp add: split_def)
next
  case False
  from assms(1) False obtain cols ncol hdrs sets d where
    "split_loop e cols ncol hdrs (data (heap s ! self)) (map (\<lambda>c. []) cols, [], s)
       = Inr (sets, d, s')"
    by (auto simp: split_def Let_def ebind_eq_Inr)
  from split_loop_frame[OF this, of "length (heap s)"]
  have "take (length (heap s)) (heap s') = take (length (heap s)) (heap s)" by simp
  then show ?thesis using assms(2) by (rule take_all_nth)
qed

lemma filter_db_frame:
  assumes "filter_db e s self filters vs = Inr (a1, s')" "a < length (heap s)"
  shows "heap s' ! a = heap s ! a"
proof -
  let ?n = "length (heap s)"
  have "take ?n (heap s') = take ?n (heap s)"
  proof (cases "vs = None \<or> vs = Some (hdr (heap s ! self))")
    case True
    show ?thesis
    proof (cases "filters = []")
      case True
      then show ?thesis using assms(1) \<open>vs = None \<or> vs = Some (hdr (heap s ! self))\<close>
        by (auto simp: filter_db_def Let_def)
    next
      case False
      from assms(1) True False obtain test res s1 where
        n: "new_DB e s (hdr (heap s ! self)) = Inr (res, s1)"
        and l: "filter_loop test res (data (heap s ! self)) s1 = Inr s'"
        by (auto simp: filter_db_def Let_def ebind_eq_Inr)
      from new_DB_Inr[OF n] obtain db where
        r: "res = ?n" "s1 = s\<lparr>heap := heap s @ [db]\<rparr>" by blast
      show ?thesis using filter_loop_frame[OF l, of ?n] r by simp
    qed
  next
    case False
    from assms(1) False obtain test cols res s1 where
      n: "new_DB e s (the vs) = Inr (res, s1)"
      and l: "project_loop test cols res (data (heap s ! self)) s1 = Inr s'"
      by (auto simp: filter_db_def Let_def ebind_eq_Inr)
    from new_DB_Inr[OF n] obtain db where
      r: "res = ?n" "s1 = s\<lparr>heap := heap s @ [db]\<rparr>" by blast
    show ?thesis using project_loop_frame[OF l, of ?n] r by simp
  qed
  then show ?thesis using assms(2) by (rule take_all_nth)
qed


lemma boundaries_rows4:
  "boundaries 2 [[1, 10], [2, 20], [3, 30], [4, 40]] = Inr [0, 2, 4]"
proof -
  let ?rows = "[[1, 10], [2, 20], [3, 30], [4, 40 :: real]]"
  have m: "mapM (\<lambda>r. pyget r 0) ?rows = Inr [1, 2, 3, 4]" by code_simp
  have s: "sort (remdups [1, 2, 3, 4 :: real]) = [1, 2, 3, 4]" by code_simp
  have ix: "map (\<lambda>x. bisect_left_by (\<lambda>r. row_below r x) ?rows) [1, 2, 3, 4] = [0, 1, 2, 3]"
    by code_simp
  have sn: "(if length [0, 1, 2, 3 :: nat] < 2 * 2 then Inr [0, 1, 2, 3]
             else snap_loop 2 (length ?rows) [0, 1, 2, 3] [0] [1..<2]) = Inr [0, 2]"
    by code_simp
  show ?thesis
    unfolding boundaries_def m ebind_Inr s coalesce_1234 Let_def ix sn by simp
qed

lemma bucketize_rows4:
  "\<exists>pts s'. bucketize 2 (table_of rows4) 0 Mean = Inr (pts, s')"
proof -
  have h2: "length (hdr (heap (table_of rows4) ! 0)) = 2" by simp
  have d: "data (heap (table_of rows4) ! 0) = rows4" by simp
  have "\<exists>res s'. points_loop s [[1, 10], [2, 20], [3, 30], [4, 40]] Mean [0, 2, 4] = Inr (res, s')"
    for s
    by (rule points_loop_total) simp_all
  then show ?thesis
    unfolding bucketize_unfold[OF h2] d sort_rows4 boundaries_rows4 ebind_Inr by blast
qed

lemma bucketize_rows_unsorted:
  "\<exists>pts s'. bucketize BUCKETS (table_of rows_unsorted) 0 Mean = Inr (pts, s')"
proof -
  have h2: "length (hdr (heap (table_of rows_unsorted) ! 0)) = 2" by simp
  have d: "data (heap (table_of rows_unsorted) ! 0) = rows_unsorted" by simp
  have so: "sort rows_unsorted = [[1, 1], [2, 1]]" by (simp add: rows_unsorted_def)
  have s: "sort (remdups [1, 2 :: real]) = [1, 2]" by code_simp
  have m: "mapM (\<lambda>r. pyget r 0) [[1, 1], [2, 1 :: real]] = Inr [1, 2]" by code_simp
  have ix: "map (\<lambda>x. bisect_left_by (\<lambda>r. row_below r x) [[1, 1], [2, 1 :: real]]) [1, 2] = [0, 1]"
    by code_simp
  have b: "boundaries BUCKETS [[1, 1], [2, 1]] = Inr [0, 1, 2]"
    unfolding boundaries_def m ebind_Inr s coalesce_12 Let_def ix by (simp add: BUCKETS_def)
  have "\<exists>res s'. points_loop s [[1, 1], [2, 1]] Mean [0, 1, 2] = Inr (res, s')" for s
    by (rule points_loop_total) simp_all
  then show ?thesis
    unfolding bucketize_unfold[OF h2] d so b ebind_Inr by blast
qed



section \<open>The column offsets\<close>

lemma build_index_snoc:
  "build_index dv (k @ [c]) =
     build_index dv k @ [last (build_index dv k) + (if c \<noteq> 0 then dv else 1)]"
  by (simp add: build_index_def)

lemma build_index_nth:
  "length (build_index dv k) = Suc (length k) \<and>
   (\<forall>i \<le> length k. build_index dv k ! i =
       sum_list (map (\<lambda>c. if c \<noteq> 0 then dv else 1) (take i k)))"
proof (induction k rule: rev_induct)
  case Nil
  then show ?case by (simp add: build_index_def)
next
  case (snoc c k)
  let ?f = "\<lambda>c. if c \<noteq> (0::nat) then dv else 1"
  have len: "length (build_index dv k) = Suc (length k)" using snoc by simp
  have ne: "build_index dv k \<noteq> []" using len by auto
  have "last (build_index dv k) = build_index dv k ! length k"
    using last_conv_nth[OF ne] len by simp
  also have "\<dots> = sum_list (map ?f (take (length k) k))"
    using snoc by blast
  finally have lst: "last (build_index dv k) = sum_list (map ?f k)" by simp
  show ?case
  proof (intro conjI allI impI)
    show "length (build_index dv (k @ [c])) = Suc (length (k @ [c]))"
      by (simp add: build_index_snoc len)
  next
    fix i assume i: "i \<le> length (k @ [c])"
    show "build_index dv (k @ [c]) ! i = sum_list (map ?f (take i (k @ [c])))"
    proof (cases "i \<le> length k")
      case True
      then show ?thesis using snoc len by (simp add: build_index_snoc nth_append)
    next
      case False
      then have "i = Suc (length k)" using i by simp
      then show ?thesis using len lst by (simp add: build_index_snoc nth_append)
    qed
  qed
qed

lemma sum_list_take_le:
  fixes xs :: "int list"
  assumes "\<forall>x\<in>set xs. 0 \<le> x"
  shows "sum_list (take i xs) \<le> sum_list xs"
proof -
  have "sum_list xs = sum_list (take i xs) + sum_list (drop i xs)"
    by (metis append_take_drop_id sum_list_append)
  moreover have "0 \<le> sum_list (drop i xs)"
    using assms by (intro sum_list_nonneg) (meson in_set_dropD)
  ultimately show ?thesis by simp
qed

lemma sum_list_kinds:
  assumes "\<forall>c\<in>set k. c = 0 \<or> c = (1::nat)"
  shows "sum_list (map (\<lambda>c. if c \<noteq> 0 then dv else 1) k)
         = int (length k - sum_list k) + int (sum_list k) * dv"
  using assms
proof (induction k)
  case Nil
  then show ?case by simp
next
  case (Cons c k)
  have le: "sum_list k \<le> length k" using Cons.prems
    by (induction k) (auto intro: le_SucI)
  show ?case using Cons le by (auto simp: algebra_simps Suc_diff_le)
qed

lemma index_in_range:
  assumes kd: "\<forall>c\<in>set k. c = 0 \<or> c = (1::nat)" and dv: "0 < dv"
    and i: "i < length k" and d: "int d < dv"
    and len: "int (length k - sum_list k) + int (sum_list k) * dv \<le> int (length dat)"
  shows "0 \<le> build_index dv k ! i + int d * int (k ! i)"
    and "build_index dv k ! i + int d * int (k ! i) < int (length dat)"
proof -
  let ?f = "\<lambda>c. if c \<noteq> (0::nat) then dv else 1"
  have nn: "\<forall>x\<in>set (map ?f k). 0 \<le> x" using dv by auto
  have bi: "build_index dv k ! i = sum_list (map ?f (take i k))"
    using build_index_nth[of dv k] i by simp
  have "\<forall>x\<in>set (map ?f (take i k)). 0 \<le> x" using dv by auto
  then have b0: "0 \<le> build_index dv k ! i" unfolding bi by (intro sum_list_nonneg) auto
  show "0 \<le> build_index dv k ! i + int d * int (k ! i)" using b0 by simp
  have ki: "k ! i = 0 \<or> k ! i = 1" using kd i by auto
  have step: "int d * int (k ! i) < ?f (k ! i)" using ki d dv by auto
  have "sum_list (map ?f (take (Suc i) k)) = sum_list (map ?f (take i k)) + ?f (k ! i)"
    using i by (simp add: take_Suc_conv_app_nth)
  moreover have "sum_list (map ?f (take (Suc i) k)) \<le> sum_list (map ?f k)"
    using sum_list_take_le[OF nn, of "Suc i"] by (simp add: take_map)
  ultimately have "build_index dv k ! i + int d * int (k ! i) < sum_list (map ?f k)"
    using step bi by linarith
  then show "build_index dv k ! i + int d * int (k ! i) < int (length dat)"
    using len sum_list_kinds[OF kd, of dv] by simp
qed

section \<open>The loops of read in closed form\<close>

lemma expand_closed:
  assumes "\<forall>d\<in>set ds. \<forall>i < length kind.
             0 \<le> index ! i + int d * int (kind ! i) \<and>
             index ! i + int d * int (kind ! i) < int (length dat)"
    and "n = length vals + length kind + (if sum_list kind \<noteq> 0 then 1 else 0)"
  shows "expand vals kind index n dat ds self =
         Inr (self\<lparr>data := data self @ map (device_row vals kind index dat) ds\<rparr>)"
  using assms(1)
proof (induction ds arbitrary: self)
  case Nil
  then show ?case by simp
next
  case (Cons d ds)
  have m: "mapM (\<lambda>i. pyget dat (index ! i + int d * int (kind ! i))) [0..<length kind]
           = Inr (map (\<lambda>i. dat ! nat (index ! i + int d * int (kind ! i))) [0..<length kind])"
  proof (rule mapM_map)
    fix i assume "i \<in> set [0..<length kind]"
    then have "0 \<le> index ! i + int d * int (kind ! i) \<and>
               index ! i + int d * int (kind ! i) < int (length dat)"
      using Cons.prems by simp
    then show "pyget dat (index ! i + int d * int (kind ! i))
               = Inr (dat ! nat (index ! i + int d * int (kind ! i)))"
      by (simp add: pyget_def)
  qed
  have rest: "\<forall>d\<in>set ds. \<forall>i < length kind.
             0 \<le> index ! i + int d * int (kind ! i) \<and>
             index ! i + int d * int (kind ! i) < int (length dat)"
    using Cons.prems by simp
  show ?case
    using Cons.IH[OF rest, of "self\<lparr>data := data self @ [device_row vals kind index dat d]\<rparr>"]
    by (simp add: m Let_def assms(2) device_row_def)
qed

lemma read_rows_closed:
  assumes lines: "\<forall>r\<in>set (takeWhile (\<lambda>r. take 1 r \<noteq> ''#'') rs).
             r \<noteq> [] \<and> data_line e r = Inr (dat_of r) \<and>
             (\<forall>d < nat devnum. \<forall>i < length kind.
                0 \<le> index ! i + int d * int (kind ! i) \<and>
                index ! i + int d * int (kind ! i) < int (length (dat_of r)))"
    and n: "n = length vals + length kind + (if sum_list kind \<noteq> 0 then 1 else 0)"
  shows "read_rows e vals kind index devnum n rs self =
         Inr (self\<lparr>data := data self @
                concat (map (\<lambda>r. map (device_row vals kind index (dat_of r)) [0..<nat devnum])
                          (takeWhile (\<lambda>r. take 1 r \<noteq> ''#'') rs))\<rparr>)"
  using lines
proof (induction rs arbitrary: self)
  case Nil
  then show ?case by simp
next
  case (Cons r rs)
  show ?case
  proof (cases "take 1 r = ''#''")
    case True
    then have "pyget r 0 = Inr CHR ''#''" by (cases r) (simp_all add: pyget_def)
    then show ?thesis using True by simp
  next
    case False
    then have mem: "r \<in> set (takeWhile (\<lambda>r. take 1 r \<noteq> ''#'') (r # rs))" by simp
    have ne: "r \<noteq> []" and dl: "data_line e r = Inr (dat_of r)"
      and rg: "\<forall>d\<in>set [0..<nat devnum]. \<forall>i < length kind.
                0 \<le> index ! i + int d * int (kind ! i) \<and>
                index ! i + int d * int (kind ! i) < int (length (dat_of r))"
      using Cons.prems mem by auto
    obtain c cs where r: "r = c # cs" using ne by (cases r) auto
    have c: "pyget r 0 = Inr c" "c \<noteq> CHR ''#''" using False r by (simp_all add: pyget_def)
    have rest: "\<forall>r\<in>set (takeWhile (\<lambda>r. take 1 r \<noteq> ''#'') rs).
             r \<noteq> [] \<and> data_line e r = Inr (dat_of r) \<and>
             (\<forall>d < nat devnum. \<forall>i < length kind.
                0 \<le> index ! i + int d * int (kind ! i) \<and>
                index ! i + int d * int (kind ! i) < int (length (dat_of r)))"
      using Cons.prems False by simp
    show ?thesis
      using Cons.IH[OF rest] False
      by (simp add: c dl expand_closed[OF rg n])
  qed
qed

lemma concat_blocks_nth:
  assumes "j < length body" "dv < k"
  shows "concat (map (\<lambda>r. map (g r) [0..<k]) body) ! (j * k + dv) = g (body ! j) dv"
  using assms(1)
proof (induction body arbitrary: j)
  case Nil
  then show ?case by simp
next
  case (Cons r body)
  show ?case
  proof (cases j)
    case 0
    then show ?thesis using assms(2) by (simp add: nth_append)
  next
    case (Suc j')
    then have "j' < length body" using Cons.prems by simp
    then have "concat (map (\<lambda>r. map (g r) [0..<k]) body) ! (j' * k + dv) = g (body ! j') dv"
      by (rule Cons.IH)
    moreover have "j * k + dv = k + (j' * k + dv)" using Suc by simp
    ultimately show ?thesis using Suc by (simp add: nth_append)
  qed
qed

lemma length_concat_blocks:
  "length (concat (map (\<lambda>r. map (g r) [0..<k]) body)) = length body * k"
  by (induction body) simp_all

end
